theory Spec2Isabelle
  imports Main "HOL-Library.Sublist"
begin

section \<open>The concurrent fetch engine of Scraper.py\<close>

text \<open>
  The development embeds \<^verbatim>\<open>fetch_page\<close> and \<^verbatim>\<open>main\<close> of \<^verbatim>\<open>src/Scraper.py\<close>.
  A task's control flow depends only on what the remote side and the event loop hand to it
  at its await points, never on the shared state (it only appends to the output file and to
  \<^verbatim>\<open>failed_attempts\<close>), so a task is embedded as the list of actions it performs, computed
  from an environment that says what every await of every attempt yields and which writes
  to the output file raise. The event loop then interleaves the tasks' actions under the
  semaphore's discipline. The messages that \<^verbatim>\<open>fetch_page\<close> prints and logs are not part of
  the embedding, except the one of line 29 that shows the attempt counter; printing and
  logging are taken not to raise.
\<close>

subsection \<open>Decoded JSON values and the Python operations applied to them\<close>

text \<open>
  What \<^verbatim>\<open>response.json()\<close> returns. \<open>JObj\<close> is a dict, given by its items in order (the keys
  of a decoded dict are distinct) and read with \<open>map_of\<close>. \<open>JNum\<close> stands for any number: no
  operation of the program tells numbers apart.
\<close>

datatype json =
    JNull
  | JBool bool
  | JNum int
  | JStr string
  | JArr "json list"
  | JObj "(string \<times> json) list"

text \<open>The exception classes the handlers of \<^verbatim>\<open>fetch_page\<close> tell apart (lines 75--105).
  \<open>ClientOSError\<close> is a subclass of \<open>ClientConnectionError\<close>; \<open>TypeError\<close>, \<open>KeyError\<close> and
  \<open>OtherException\<close> are subclasses of \<open>Exception\<close> that only the last handler catches;
  \<open>OtherException\<close> stands for every such class not named here, among them the
  \<open>UnicodeEncodeError\<close> and \<open>OSError\<close> of a failed write to the output file.\<close>

datatype exn =
    ClientResponseError int
  | ClientConnectionError
  | CancelledError
  | TypeError
  | KeyError
  | OtherException

text \<open>\<^verbatim>\<open>key in data\<close> for a string key: dict membership, list membership, substring test;
  every other value is not iterable.\<close>

fun py_contains :: "json \<Rightarrow> string \<Rightarrow> exn + bool" where
  "py_contains (JObj kvs) key = Inr (key \<in> set (map fst kvs))"
| "py_contains (JArr xs) key = Inr (JStr key \<in> set xs)"
| "py_contains (JStr s) key = Inr (sublist key s)"
| "py_contains _ key = Inl TypeError"

text \<open>\<^verbatim>\<open>data[key]\<close> for a string key: only a dict accepts it.\<close>

fun py_getitem :: "json \<Rightarrow> string \<Rightarrow> exn + json" where
  "py_getitem (JObj kvs) key = (case map_of kvs key of None \<Rightarrow> Inl KeyError | Some v \<Rightarrow> Inr v)"
| "py_getitem _ key = Inl TypeError"

text \<open>\<^verbatim>\<open>for player in results\<close>: the elements of a list, the keys of a dict, the characters
  of a string.\<close>

fun py_iter :: "json \<Rightarrow> exn + json list" where
  "py_iter (JArr xs) = Inr xs"
| "py_iter (JObj kvs) = Inr (map (JStr \<circ> fst) kvs)"
| "py_iter (JStr s) = Inr (map (\<lambda>c. JStr [c]) s)"
| "py_iter _ = Inl TypeError"

subsection \<open>Actions of a task and its environment\<close>

text \<open>
  The observable actions of one \<^verbatim>\<open>fetch_page\<close> task, in program order:
  entering and leaving \<^verbatim>\<open>async with semaphore\<close>, the message of line 29 with the attempt
  counter it shows, a completed \<^verbatim>\<open>asyncio.sleep\<close>, a line written to the output file
  (tagged with the page it comes from; the file itself does not carry the page),
  \<^verbatim>\<open>failed_attempts.append(page)\<close>, and the delivery of a cancellation at an await.
\<close>

datatype action =
    Acquire
  | Release
  | Fetching nat
  | Sleep nat
  | Write nat json
  | Append nat
  | Cancelled

text \<open>What the outside world does to one attempt: whether the semaphore is obtained (or the
  task is cancelled while waiting for it), what \<^verbatim>\<open>session.get\<close> gives (an exception or a
  status), what \<^verbatim>\<open>response.json()\<close> gives, whether the one sleep of the attempt runs to its
  end (or is cancelled), and for each line the attempt writes, counted from 0, whether
  \<^verbatim>\<open>f.write\<close> and \<^verbatim>\<open>f.flush\<close> of lines 60--61 go through or raise (\<open>UnicodeEncodeError\<close> on
  a name that cannot be encoded, \<open>OSError\<close> from the file system).\<close>

record attempt_env =
  acquire_ok :: bool
  get_result :: "exn + int"
  json_result :: "exn + json"
  sleep_ok :: bool
  write_ok :: "nat \<Rightarrow> bool"

text \<open>The return statement a call ends at: line 67, line 73, line 90, or the end of the
  function after line 115.\<close>

datatype ret = Fetched | Malformed | ClientError | Exhausted

text \<open>How one pass through the loop body ends: the next iteration (\<^verbatim>\<open>continue\<close> or the end of
  the body), a \<^verbatim>\<open>return\<close>, or an exception leaving the function.\<close>

datatype flow = Next | Return ret | Raise exn

subsection \<open>Configuration\<close>

definition max_attempts :: nat where
  "max_attempts = 5"

definition max_concurrent_requests :: nat where
  "max_concurrent_requests = 50"

definition total_pages :: nat where
  "total_pages = 214849"

subsection \<open>Backoff\<close>

text \<open>The failure branches that sleep before the next attempt, and the argument each passes
  to \<^verbatim>\<open>asyncio.sleep\<close>: line 37, line 48, line 81, line 87, line 93, line 106.\<close>

datatype failure_kind =
    RateLimited
  | BadStatus
  | ServerError
  | ClientProtocolError
  | ConnectionError
  | Unexpected

fun wait_time :: "failure_kind \<Rightarrow> nat \<Rightarrow> nat" where
  "wait_time RateLimited attempt = 5 * (2 ^ attempt)"
| "wait_time BadStatus attempt = 2 ^ attempt"
| "wait_time ServerError attempt = 2 ^ attempt"
| "wait_time ClientProtocolError attempt = 2"
| "wait_time ConnectionError attempt = 2 ^ attempt"
| "wait_time Unexpected attempt = 2 ^ attempt"

text \<open>\<^verbatim>\<open>await asyncio.sleep(d)\<close>: it completes, or \<open>CancelledError\<close> is raised in it.\<close>

definition sleep :: "attempt_env \<Rightarrow> nat \<Rightarrow> action list \<times> exn option" where
  "sleep e d = (if sleep_ok e then ([Sleep d], None) else ([Cancelled], Some CancelledError))"

text \<open>An exception raised by an await of the environment; a cancellation is marked in the
  trace.\<close>

definition raised :: "exn \<Rightarrow> action list \<times> flow" where
  "raised x = (if x = CancelledError then [Cancelled] else [], Raise x)"

subsection \<open>One attempt of \<^verbatim>\<open>fetch_page\<close>\<close>

text \<open>Lines 55--59: the three subscripts are evaluated in order, the first that fails
  raises.\<close>

definition player_obj :: "json \<Rightarrow> exn + json" where
  "player_obj player =
     (case py_getitem player ''player_name'' of
        Inl x \<Rightarrow> Inl x
      | Inr name \<Rightarrow>
          (case py_getitem player ''entry_name'' of
             Inl x \<Rightarrow> Inl x
           | Inr team \<Rightarrow>
               (case py_getitem player ''entry'' of
                  Inl x \<Rightarrow> Inl x
                | Inr ident \<Rightarrow>
                    Inr (JObj [(''Full Name'', name), (''Team Name'', team),
                               (''Player ID'', ident)]))))"

text \<open>Lines 54--61, from the \<open>i\<close>-th line of the attempt on: each player is built, then
  written and flushed, before the next is looked at. A subscript of lines 55--59 or the write
  of lines 60--61 may raise; the exception leaves the lines already written in the file, and
  a write that raises adds no line.\<close>

fun write_players ::
  "nat \<Rightarrow> (nat \<Rightarrow> bool) \<Rightarrow> nat \<Rightarrow> json list \<Rightarrow> action list \<times> exn option" where
  "write_players page ok i [] = ([], None)"
| "write_players page ok i (player # rest) =
     (case player_obj player of
        Inl x \<Rightarrow> ([], Some x)
      | Inr obj \<Rightarrow>
          if \<not> ok i then ([], Some OtherException)
          else
            (case write_players page ok (Suc i) rest of
               (ws, r) \<Rightarrow> (Write page obj # ws, r)))"

text \<open>Lines 52--73, on the decoded body.\<close>

definition has_results :: "json \<Rightarrow> exn + bool" where
  "has_results data =
     (case py_contains data ''standings'' of
        Inl x \<Rightarrow> Inl x
      | Inr False \<Rightarrow> Inr False
      | Inr True \<Rightarrow>
          (case py_getitem data ''standings'' of
             Inl x \<Rightarrow> Inl x
           | Inr standings \<Rightarrow> py_contains standings ''results''))"

definition get_results :: "json \<Rightarrow> exn + json" where
  "get_results data =
     (case py_getitem data ''standings'' of
        Inl x \<Rightarrow> Inl x
      | Inr standings \<Rightarrow> py_getitem standings ''results'')"

definition process :: "nat \<Rightarrow> attempt_env \<Rightarrow> json \<Rightarrow> action list \<times> flow" where
  "process page e data =
     (case has_results data of
        Inl x \<Rightarrow> ([], Raise x)
      | Inr False \<Rightarrow> ([Append page], Return Malformed)
      | Inr True \<Rightarrow>
          (case get_results data of
             Inl x \<Rightarrow> ([], Raise x)
           | Inr results \<Rightarrow>
               (case py_iter results of
                  Inl x \<Rightarrow> ([], Raise x)
                | Inr players \<Rightarrow>
                    (case write_players page (write_ok e) 0 players of
                       (ws, Some x) \<Rightarrow> (ws, Raise x)
                     | (ws, None) \<Rightarrow> (ws, Return Fetched)))))"

text \<open>A sleep inside the \<^verbatim>\<open>try\<close> followed by \<^verbatim>\<open>continue\<close> (lines 41--42 and 48--49).\<close>

definition sleep_continue :: "attempt_env \<Rightarrow> nat \<Rightarrow> action list \<times> flow" where
  "sleep_continue e d =
     (case sleep e d of (as, None) \<Rightarrow> (as, Next) | (as, Some x) \<Rightarrow> (as, Raise x))"

text \<open>Lines 35--73: the body of the \<^verbatim>\<open>try\<close>.\<close>

definition try_body :: "nat \<Rightarrow> nat \<Rightarrow> attempt_env \<Rightarrow> action list \<times> flow" where
  "try_body page attempt e =
     (case get_result e of
        Inl x \<Rightarrow> raised x
      | Inr status \<Rightarrow>
          if status = 429 then sleep_continue e (wait_time RateLimited attempt)
          else if \<not> (200 \<le> status \<and> status < 300) then
            sleep_continue e (wait_time BadStatus attempt)
          else
            (case json_result e of
               Inl x \<Rightarrow> raised x
             | Inr data \<Rightarrow> process page e data))"

text \<open>Lines 75--110: the handlers, tried in the order they are written. An exception raised
  by the sleep of a handler is not caught by the handlers of the same \<^verbatim>\<open>try\<close>.\<close>

fun handler :: "nat \<Rightarrow> nat \<Rightarrow> attempt_env \<Rightarrow> exn \<Rightarrow> action list \<times> flow" where
  "handler page attempt e (ClientResponseError status) =
     (if 500 \<le> status \<and> status < 600 then sleep_continue e (wait_time ServerError attempt)
      else
        (case sleep e (wait_time ClientProtocolError attempt) of
           (as, Some x) \<Rightarrow> (as, Raise x)
         | (as, None) \<Rightarrow>
             if attempt = max_attempts - 1 then (as @ [Append page], Return ClientError)
             else (as, Next)))"
| "handler page attempt e ClientConnectionError =
     sleep_continue e (wait_time ConnectionError attempt)"
| "handler page attempt e CancelledError = ([], Raise CancelledError)"
| "handler page attempt e _ = sleep_continue e (wait_time Unexpected attempt)"

text \<open>Lines 28--110: one iteration of the loop. A task cancelled while it waits for the
  semaphore holds no permit; once inside, the permit is given back however the block is
  left.\<close>

definition try_except :: "nat \<Rightarrow> nat \<Rightarrow> attempt_env \<Rightarrow> action list \<times> flow" where
  "try_except page attempt e =
     (case try_body page attempt e of
        (as, Raise x) \<Rightarrow> (case handler page attempt e x of (bs, fl) \<Rightarrow> (as @ bs, fl))
      | (as, fl) \<Rightarrow> (as, fl))"

definition attempt_once :: "nat \<Rightarrow> nat \<Rightarrow> attempt_env \<Rightarrow> action list \<times> flow" where
  "attempt_once page attempt e =
     (if \<not> acquire_ok e then ([Cancelled], Raise CancelledError)
      else
        (case try_except page attempt e of
           (as, fl) \<Rightarrow> (Acquire # Fetching (attempt + 1) # as @ [Release], fl)))"

subsection \<open>The attempt loop\<close>

text \<open>Lines 27--115: \<^verbatim>\<open>for attempt in range(max_attempts)\<close>, then the code after the loop.\<close>

fun attempts :: "nat \<Rightarrow> (nat \<Rightarrow> attempt_env) \<Rightarrow> nat list \<Rightarrow> action list \<times> (exn + ret)" where
  "attempts page env [] = ([Append page], Inr Exhausted)"
| "attempts page env (a # rest) =
     (case attempt_once page a (env a) of
        (as, Next) \<Rightarrow> (case attempts page env rest of (bs, r) \<Rightarrow> (as @ bs, r))
      | (as, Return r) \<Rightarrow> (as, Inr r)
      | (as, Raise x) \<Rightarrow> (as, Inl x))"

definition fetch_page :: "nat \<Rightarrow> (nat \<Rightarrow> attempt_env) \<Rightarrow> action list \<times> (exn + ret)" where
  "fetch_page page env = attempts page env [0..<max_attempts]"

subsection \<open>Reading a trace\<close>

text \<open>The pages appended to \<^verbatim>\<open>failed_attempts\<close>, the completed sleeps, the attempt
  counters shown and the lines written, each in program order.\<close>

fun appends :: "action list \<Rightarrow> nat list" where
  "appends [] = []"
| "appends (Append p # r) = p # appends r"
| "appends (_ # r) = appends r"

fun sleeps :: "action list \<Rightarrow> nat list" where
  "sleeps [] = []"
| "sleeps (Sleep d # r) = d # sleeps r"
| "sleeps (_ # r) = sleeps r"

fun fetchings :: "action list \<Rightarrow> nat list" where
  "fetchings [] = []"
| "fetchings (Fetching n # r) = n # fetchings r"
| "fetchings (_ # r) = fetchings r"

fun writes :: "action list \<Rightarrow> (nat \<times> json) list" where
  "writes [] = []"
| "writes (Write p obj # r) = (p, obj) # writes r"
| "writes (_ # r) = writes r"

text \<open>The actions that occur between \<open>Acquire\<close> and \<open>Release\<close> of an attempt of \<open>page\<close>.\<close>

fun inner :: "nat \<Rightarrow> action \<Rightarrow> bool" where
  "inner page (Sleep d) = True"
| "inner page (Write q obj) = (q = page)"
| "inner page (Append q) = (q = page)"
| "inner page Cancelled = True"
| "inner page _ = False"

text \<open>A trace respects the scope of the semaphore, read from a point where the task holds
  the permit (\<open>h\<close>) or not: \<open>Acquire\<close> only without the permit, \<open>Release\<close> and \<open>Sleep\<close> only
  with it, and no permit left at the end.\<close>

fun scoped :: "bool \<Rightarrow> action list \<Rightarrow> bool" where
  "scoped h [] = (\<not> h)"
| "scoped h (Acquire # r) = (\<not> h \<and> scoped True r)"
| "scoped h (Release # r) = (h \<and> scoped False r)"
| "scoped h (Sleep d # r) = (h \<and> scoped h r)"
| "scoped h (_ # r) = scoped h r"

subsection \<open>The event loop: tasks interleaved under the semaphore\<close>

text \<open>
  The state shared by the tasks of one run: the value of the \<^verbatim>\<open>asyncio.Semaphore\<close>, what
  each task has still to do, which tasks are past \<open>Acquire\<close> and before \<open>Release\<close>, the lines
  of the output file and the global list \<^verbatim>\<open>failed_attempts\<close>.
\<close>

record sys =
  free :: nat
  tasks :: "action list list"
  holding :: "bool list"
  out :: "(nat \<times> json) list"
  failed_attempts :: "nat list"

text \<open>Task \<open>i\<close> performs an action. \<^verbatim>\<open>Semaphore.acquire\<close> returns only when the value is
  positive and decrements it; \<^verbatim>\<open>release\<close> increments it. \<open>None\<close>: the task is blocked.\<close>

fun perform :: "action \<Rightarrow> nat \<Rightarrow> sys \<Rightarrow> sys option" where
  "perform Acquire i s =
     (if free s = 0 then None
      else Some (s\<lparr>free := free s - 1, holding := (holding s)[i := True]\<rparr>))"
| "perform Release i s = Some (s\<lparr>free := free s + 1, holding := (holding s)[i := False]\<rparr>)"
| "perform (Write p obj) i s = Some (s\<lparr>out := out s @ [(p, obj)]\<rparr>)"
| "perform (Append p) i s = Some (s\<lparr>failed_attempts := failed_attempts s @ [p]\<rparr>)"
| "perform _ i s = Some s"

text \<open>The event loop resumes task \<open>i\<close> for its next action.\<close>

definition step :: "nat \<Rightarrow> sys \<Rightarrow> sys option" where
  "step i s =
     (if i < length (tasks s) then
        (case tasks s ! i of
           [] \<Rightarrow> None
         | a # rest \<Rightarrow>
             (case perform a i s of
                None \<Rightarrow> None
              | Some s' \<Rightarrow> Some (s'\<lparr>tasks := (tasks s')[i := rest]\<rparr>)))
      else None)"

text \<open>A schedule is the order in which the event loop resumes the tasks.\<close>

fun exec :: "nat list \<Rightarrow> sys \<Rightarrow> sys option" where
  "exec [] s = Some s"
| "exec (i # sched) s = (case step i s of None \<Rightarrow> None | Some s' \<Rightarrow> exec sched s')"

definition finished :: "sys \<Rightarrow> bool" where
  "finished s = (concat (tasks s) = [])"

definition in_flight :: "sys \<Rightarrow> nat" where
  "in_flight s = length (filter id (holding s))"

subsection \<open>\<^verbatim>\<open>main\<close>\<close>

text \<open>Lines 132--135: one task per page of \<^verbatim>\<open>range(1, total_pages + 1)\<close>, created before any
  of them runs. \<open>env page attempt\<close> is what the awaits of that attempt of that page yield.\<close>

definition spawn ::
  "nat \<Rightarrow> (nat \<Rightarrow> nat \<Rightarrow> attempt_env) \<Rightarrow> (action list \<times> (exn + ret)) list" where
  "spawn npages env = map (\<lambda>page. fetch_page page (env page)) [1..<npages + 1]"

text \<open>Line 127 and line 17: the semaphore starts at the concurrency limit, the list of failed
  pages empty; line 131 truncates the output file.\<close>

definition init :: "nat \<Rightarrow> action list list \<Rightarrow> sys" where
  "init capacity ts =
     \<lparr>free = capacity, tasks = ts, holding = replicate (length ts) False,
      out = [], failed_attempts = []\<rparr>"

text \<open>Line 144: \<^verbatim>\<open>asyncio.gather\<close> hands back one result per task; with
  \<^verbatim>\<open>return_exceptions=True\<close> an exception of a task is one of these results, otherwise the
  first one is raised in the caller.\<close>

fun first_exn :: "(exn + ret) list \<Rightarrow> exn option" where
  "first_exn [] = None"
| "first_exn (Inl x # rs) = Some x"
| "first_exn (Inr r # rs) = first_exn rs"

definition gather :: "bool \<Rightarrow> (exn + ret) list \<Rightarrow> exn + (exn + ret) list" where
  "gather return_exceptions rs =
     (if return_exceptions then Inr rs
      else (case first_exn rs of None \<Rightarrow> Inr rs | Some x \<Rightarrow> Inl x))"

text \<open>Lines 146--158: the counts that are printed, and the document written to
  \<^verbatim>\<open>failed_attempts.json\<close>.\<close>

record run_summary =
  pages :: nat
  success_count :: int
  failed_count :: int

definition summary :: "nat \<Rightarrow> nat list \<Rightarrow> run_summary" where
  "summary npages failed =
     \<lparr>pages = npages,
      success_count = int npages - int (length failed),
      failed_count = int (length failed)\<rparr>"

definition report :: "nat list \<Rightarrow> json" where
  "report failed = JObj [(''Failed Pages'', JArr (map (\<lambda>p. JNum (int p)) failed))]"

text \<open>Lines 118--170 under a schedule of the event loop. \<open>None\<close>: the schedule is not a run of
  the tasks to their end (\<^verbatim>\<open>gather\<close> is still waiting, or a task was resumed that cannot
  move). Otherwise \<open>Inl\<close> is an exception leaving \<^verbatim>\<open>main\<close>, \<open>Inr\<close> the summary, the report and
  the output file.\<close>

definition main ::
  "nat \<Rightarrow> nat \<Rightarrow> (nat \<Rightarrow> nat \<Rightarrow> attempt_env) \<Rightarrow> nat list
     \<Rightarrow> (exn + run_summary \<times> json \<times> (nat \<times> json) list) option" where
  "main npages capacity env sched =
     (let ts = spawn npages env in
      case exec sched (init capacity (map fst ts)) of
        None \<Rightarrow> None
      | Some s \<Rightarrow>
          if \<not> finished s then None
          else
            (case gather True (map snd ts) of
               Inl x \<Rightarrow> Some (Inl x)
             | Inr results \<Rightarrow>
                 Some (Inr (summary npages (failed_attempts s),
                            report (failed_attempts s), out s))))"

subsection \<open>Outcomes of a call and the invariant of the event loop\<close>

text \<open>Whether a call ended at a place that appends the page to \<^verbatim>\<open>failed_attempts\<close>
  (lines 72, 89 and 115).\<close>

fun recorded :: "exn + ret \<Rightarrow> bool" where
  "recorded (Inr Fetched) = False"
| "recorded (Inr _) = True"
| "recorded (Inl _) = False"

text \<open>The actions of the attempts before attempt \<open>k\<close>.\<close>

definition retried :: "nat \<Rightarrow> (nat \<Rightarrow> attempt_env) \<Rightarrow> nat \<Rightarrow> action list" where
  "retried page env k = concat (map (\<lambda>j. fst (attempt_once page j (env j))) [0..<k])"

text \<open>The body shape of the remote interface, in the words of the specification: an object
  with a key \<^verbatim>\<open>standings\<close> holding an object with a key \<^verbatim>\<open>results\<close>. (The program itself
  tests with \<open>has_results\<close>.)\<close>

fun has_nested_keys :: "json \<Rightarrow> bool" where
  "has_nested_keys (JObj kvs) =
     (case map_of kvs ''standings'' of
        Some (JObj inner_kvs) \<Rightarrow> ''results'' \<in> set (map fst inner_kvs)
      | _ \<Rightarrow> False)"
| "has_nested_keys _ = False"

text \<open>What the event loop keeps true: every task's remaining actions respect the scope of
  the semaphore from where the task stands, and the permits handed out and the free ones
  add up to the capacity.\<close>

definition inv :: "nat \<Rightarrow> sys \<Rightarrow> bool" where
  "inv capacity s \<longleftrightarrow>
     length (holding s) = length (tasks s)
     \<and> (\<forall>i<length (tasks s). scoped (holding s ! i) (tasks s ! i))
     \<and> free s + in_flight s = capacity"

subsection \<open>Sample environments\<close>

text \<open>An attempt in which nothing is cancelled, every write goes through, and the request
  is answered with a status, raises, or is answered with status 200 and a decoded body.\<close>

definition responds :: "int \<Rightarrow> attempt_env" where
  "responds status =
     \<lparr>acquire_ok = True, get_result = Inr status, json_result = Inl OtherException,
      sleep_ok = True, write_ok = (\<lambda>i. True)\<rparr>"

definition raises :: "exn \<Rightarrow> attempt_env" where
  "raises x =
     \<lparr>acquire_ok = True, get_result = Inl x, json_result = Inl OtherException,
      sleep_ok = True, write_ok = (\<lambda>i. True)\<rparr>"

definition answers :: "json \<Rightarrow> attempt_env" where
  "answers data =
     \<lparr>acquire_ok = True, get_result = Inr 200, json_result = Inr data, sleep_ok = True,
      write_ok = (\<lambda>i. True)\<rparr>"

text \<open>The same answer at every attempt; one answer at the first attempt and another at
  every later one.\<close>

definition always :: "attempt_env \<Rightarrow> nat \<Rightarrow> attempt_env" where
  "always e attempt = e"

definition then_env :: "attempt_env \<Rightarrow> attempt_env \<Rightarrow> nat \<Rightarrow> attempt_env" where
  "then_env first rest attempt = (if attempt = 0 then first else rest)"

text \<open>Two bodies without the nested result list.\<close>

definition null_standings :: json where
  "null_standings = JObj [(''standings'', JNull)]"

definition no_standings :: json where
  "no_standings = JObj [(''detail'', JStr ''Not found.'')]"

subsection \<open>A run of three pages under a limit of two\<close>

text \<open>Page 1 is fetched at once with two players; page 2 is answered 429, then fetched with
  one player; page 3 is answered 500 at every attempt. The schedule interleaves the three
  tasks; \<open>scenario_final\<close> is the state it ends in.\<close>

definition entry :: "string \<Rightarrow> string \<Rightarrow> int \<Rightarrow> json" where
  "entry name team ident =
     JObj [(''player_name'', JStr name), (''entry_name'', JStr team), (''entry'', JNum ident)]"

definition standings :: "json list \<Rightarrow> json" where
  "standings players = JObj [(''standings'', JObj [(''results'', JArr players)])]"

definition scenario :: "nat \<Rightarrow> nat \<Rightarrow> attempt_env" where
  "scenario page attempt =
     (if page = 1 then answers (standings [entry ''Ann'' ''Reds'' 11, entry ''Bob'' ''Blues'' 12])
      else if page = 2 then
        (if attempt = 0 then responds 429 else answers (standings [entry ''Cy'' ''Greens'' 21]))
      else responds 500)"

definition scenario_sched :: "nat list" where
  "scenario_sched =
     [0, 1, 0, 1, 0, 1, 0, 0, 2, 1, 2, 1, 2, 2, 1, 1, 2, 1] @ replicate 16 2"

definition scenario_final :: sys where
  "scenario_final =
     \<lparr>free = 2, tasks = [[], [], []], holding = [False, False, False],
      out = [(1, JObj [(''Full Name'', JStr ''Ann''), (''Team Name'', JStr ''Reds''),
                       (''Player ID'', JNum 11)]),
             (1, JObj [(''Full Name'', JStr ''Bob''), (''Team Name'', JStr ''Blues''),
                       (''Player ID'', JNum 12)]),
             (2, JObj [(''Full Name'', JStr ''Cy''), (''Team Name'', JStr ''Greens''),
                       (''Player ID'', JNum 21)])],
      failed_attempts = [3]\<rparr>"

subsection \<open>A run of two pages that writes nothing\<close>

text \<open>Page 1 is answered with an empty result list; the task of page 2 is cancelled in its
  request.\<close>

definition unwritten :: "nat \<Rightarrow> nat \<Rightarrow> attempt_env" where
  "unwritten page attempt =
     (if page = 1 then answers (standings []) else raises CancelledError)"

definition unwritten_sched :: "nat list" where
  "unwritten_sched = [0, 0, 0, 1, 1, 1, 1]"

subsection \<open>Pages in the output and in the report\<close>

text \<open>The invariant in the words of the specification: the page appears in exactly one of
  the output stream and the failure report.\<close>

definition exactly_one :: "nat \<Rightarrow> (nat \<times> json) list \<Rightarrow> nat list \<Rightarrow> bool" where
  "exactly_one p output failed \<longleftrightarrow> (p \<in> set (map fst output)) \<noteq> (p \<in> set failed)"

text \<open>Lines 55--59 succeed on the player.\<close>

fun builds :: "json \<Rightarrow> bool" where
  "builds player = (case player_obj player of Inl x \<Rightarrow> False | Inr obj \<Rightarrow> True)"

text \<open>A body that, if it passes the test of line 52 and its result list can be iterated,
  holds at least one player and only players that lines 55--59 can build and lines 60--61
  can write in this attempt.\<close>

definition clean_body :: "attempt_env \<Rightarrow> json \<Rightarrow> bool" where
  "clean_body e data =
     (case has_results data of
        Inr True \<Rightarrow>
          (case get_results data of
             Inr results \<Rightarrow>
               (case py_iter results of
                  Inr players \<Rightarrow>
                    players \<noteq> [] \<and> list_all builds players
                    \<and> list_all (write_ok e) [0..<length players]
                | Inl x \<Rightarrow> True)
           | Inl x \<Rightarrow> True)
      | _ \<Rightarrow> True)"

text \<open>An attempt in which no cancellation is delivered and whose body, if any, is clean.\<close>

definition uneventful :: "attempt_env \<Rightarrow> bool" where
  "uneventful e \<longleftrightarrow>
     acquire_ok e \<and> sleep_ok e \<and> get_result e \<noteq> Inl CancelledError
     \<and> json_result e \<noteq> Inl CancelledError
     \<and> (case json_result e of Inr data \<Rightarrow> clean_body e data | Inl x \<Rightarrow> True)"

text \<open>A page whose result list holds a player and then \<^verbatim>\<open>null\<close>, at every attempt; and a
  page with two players of which, at every attempt, the second cannot be written.\<close>

definition torn_write :: "nat \<Rightarrow> nat \<Rightarrow> attempt_env" where
  "torn_write page attempt =
     (answers (standings [entry ''Ann'' ''Reds'' 11, entry ''Bob'' ''Blues'' 12]))
       \<lparr>write_ok := (\<lambda>i. i = 0)\<rparr>"

definition half_written :: "nat \<Rightarrow> nat \<Rightarrow> attempt_env" where
  "half_written page attempt = answers (standings [entry ''Ann'' ''Reds'' 11, JNull])"

section \<open>Properties\<close>

subsection \<open>Traces of one attempt\<close>

declare wait_time.simps [simp del]

lemma appends_append [simp]: "appends (xs @ ys) = appends xs @ appends ys"
  by (induction xs rule: appends.induct) simp_all

lemma sleeps_append [simp]: "sleeps (xs @ ys) = sleeps xs @ sleeps ys"
  by (induction xs rule: sleeps.induct) simp_all

lemma fetchings_append [simp]: "fetchings (xs @ ys) = fetchings xs @ fetchings ys"
  by (induction xs rule: fetchings.induct) simp_all

lemma writes_append [simp]: "writes (xs @ ys) = writes xs @ writes ys"
  by (induction xs rule: writes.induct) simp_all


lemma inner_sleep: "sleep e d = (as, r) \<Longrightarrow> list_all (inner page) as"
  by (auto simp: sleep_def split: if_splits)

lemma inner_sleep_continue: "sleep_continue e d = (as, fl) \<Longrightarrow> list_all (inner page) as"
  by (auto simp: sleep_continue_def sleep_def split: if_splits)

lemma inner_raised: "raised x = (as, fl) \<Longrightarrow> list_all (inner page) as"
  by (auto simp: raised_def split: if_splits)

lemma inner_write_players:
  "write_players page ok i ps = (as, r) \<Longrightarrow> list_all (inner page) as"
  by (induction ps arbitrary: as r i) (auto split: sum.splits prod.splits if_splits)

lemma inner_process: "process page e data = (as, fl) \<Longrightarrow> list_all (inner page) as"
  by (auto simp: process_def dest: inner_write_players
      split: sum.splits bool.splits prod.splits option.splits)

lemma inner_try_body: "try_body page a e = (as, fl) \<Longrightarrow> list_all (inner page) as"
  by (auto simp: try_body_def dest: inner_process inner_raised inner_sleep_continue
      split: sum.splits if_splits)

lemma inner_handler: "handler page a e x = (as, fl) \<Longrightarrow> list_all (inner page) as"
  by (cases x) (auto dest: inner_sleep_continue inner_sleep split: if_splits prod.splits option.splits)

lemma inner_try_except: "try_except page a e = (as, fl) \<Longrightarrow> list_all (inner page) as"
  by (auto simp: try_except_def dest: inner_try_body inner_handler
      split: prod.splits flow.splits)

lemma flow_sleep_continue:
  "sleep_continue e d = (as, fl) \<Longrightarrow>
     (as = [Sleep d] \<and> fl = Next \<and> sleep_ok e) \<or> (as = [Cancelled] \<and> fl = Raise CancelledError \<and> \<not> sleep_ok e)"
  by (auto simp: sleep_continue_def sleep_def split: if_splits)

lemma flow_raised:
  "raised x = (as, fl) \<Longrightarrow> fl = Raise x \<and> as = (if x = CancelledError then [Cancelled] else [])"
  by (auto simp: raised_def)

lemma flow_write_players:
  "write_players page ok i ps = (as, r) \<Longrightarrow>
     appends as = [] \<and> sleeps as = [] \<and> Cancelled \<notin> set as \<and> r \<noteq> Some CancelledError"
proof (induction ps arbitrary: as r i)
  case Nil
  then show ?case by simp
next
  case (Cons p ps)
  show ?case
  proof (cases "player_obj p")
    case (Inl x)
    have "x \<noteq> CancelledError"
      using Inl by (cases p) (auto simp: player_obj_def split: sum.splits option.splits)
    with Cons.prems Inl show ?thesis by auto
  next
    case (Inr obj)
    show ?thesis
    proof (cases "ok i")
      case False
      with Cons.prems Inr show ?thesis by auto
    next
      case True
      obtain ws r' where w: "write_players page ok (Suc i) ps = (ws, r')"
        by (cases "write_players page ok (Suc i) ps")
      from Cons.IH [OF w] Cons.prems Inr True w show ?thesis by auto
    qed
  qed
qed

lemma py_contains_exn: "py_contains d k = Inl x \<Longrightarrow> x = TypeError"
  by (cases d) auto

lemma py_getitem_exn: "py_getitem d k = Inl x \<Longrightarrow> x = TypeError \<or> x = KeyError"
  by (cases d) (auto split: option.splits)

lemma py_iter_exn: "py_iter d = Inl x \<Longrightarrow> x = TypeError"
  by (cases d) auto

lemma has_results_exn: "has_results d = Inl x \<Longrightarrow> x \<noteq> CancelledError"
  by (auto simp: has_results_def split: sum.splits bool.splits
      dest: py_contains_exn py_getitem_exn)

lemma get_results_exn: "get_results d = Inl x \<Longrightarrow> x \<noteq> CancelledError"
  by (auto simp: get_results_def split: sum.splits dest: py_getitem_exn)

lemma flow_process:
  assumes "process page e data = (as, fl)"
  shows "appends as = (if fl = Return Malformed then [page] else [])"
    and "sleeps as = []"
    and "Cancelled \<notin> set as"
    and "fl \<noteq> Next" and "fl \<noteq> Return ClientError" and "fl \<noteq> Return Exhausted"
    and "fl \<noteq> Raise CancelledError"
  using assms
  by (auto simp: process_def
      dest: flow_write_players has_results_exn get_results_exn py_iter_exn
      split: sum.splits bool.splits prod.splits option.splits)

lemma try_body_cases:
  assumes "try_body page a e = (as, fl)"
  obtains (exn) x where "get_result e = Inl x" "raised x = (as, fl)"
    | (slp) d where "sleep_continue e d = (as, fl)"
        "d = wait_time RateLimited a \<or> d = wait_time BadStatus a"
    | (jexn) x where "raised x = (as, fl)"
    | (proc) data where "process page e data = (as, fl)"
  using assms unfolding try_body_def
  by (cases "get_result e"; cases "json_result e"; simp split: if_splits; blast)

lemma flow_try_body_all:
  assumes "try_body page a e = (as, fl)"
  shows "appends as = (if fl = Return Malformed then [page] else [])
    \<and> fl \<noteq> Return ClientError \<and> fl \<noteq> Return Exhausted
    \<and> (Cancelled \<in> set as \<longleftrightarrow> fl = Raise CancelledError)
    \<and> (fl = Next \<longrightarrow> sleeps as = [wait_time RateLimited a] \<or> sleeps as = [wait_time BadStatus a])
    \<and> (fl \<noteq> Next \<longrightarrow> sleeps as = [])"
  using assms
proof (cases rule: try_body_cases)
  case (exn x)
  from flow_raised [OF exn(2)] show ?thesis by simp
next
  case (slp d)
  from flow_sleep_continue [OF slp(1)] slp(2) show ?thesis by auto
next
  case (jexn x)
  from flow_raised [OF jexn] show ?thesis by simp
next
  case (proc data)
  from flow_process [OF proc] show ?thesis by simp
qed

lemma handler_cases:
  assumes "handler page a e x = (bs, fl)"
  obtains (cancel) "x = CancelledError" "bs = []" "fl = Raise CancelledError"
    | (slp) k where "x \<noteq> CancelledError" "sleep_continue e (wait_time k a) = (bs, fl)"
    | (cli) "x \<noteq> CancelledError" "sleep_ok e" "fl = Next"
        "bs = [Sleep (wait_time ClientProtocolError a)]"
    | (last) "x \<noteq> CancelledError" "sleep_ok e" "fl = Return ClientError"
        "bs = [Sleep (wait_time ClientProtocolError a), Append page]"
    | (cut) "x \<noteq> CancelledError" "\<not> sleep_ok e" "fl = Raise CancelledError" "bs = [Cancelled]"
proof (cases x)
  case (ClientResponseError st)
  show ?thesis
  proof (cases "500 \<le> st \<and> st < 600")
    case True
    with assms ClientResponseError
    have "sleep_continue e (wait_time ServerError a) = (bs, fl)" by simp
    with ClientResponseError show ?thesis by (intro slp) simp_all
  next
    case False
    show ?thesis
    proof (cases "sleep_ok e")
      case ok: True
      show ?thesis
      proof (cases "a = max_attempts - 1")
        case True
        with assms ClientResponseError False ok show ?thesis
          by (intro last) (simp_all add: sleep_def)
      next
        case nl: False
        with assms ClientResponseError False ok show ?thesis
          by (intro cli) (simp_all add: sleep_def)
      qed
    next
      case no: False
      with assms ClientResponseError False show ?thesis
        by (intro cut) (simp_all add: sleep_def)
    qed
  qed
next
  case ClientConnectionError
  with assms show ?thesis by (intro slp [of ConnectionError]) simp_all
next
  case CancelledError
  with assms show ?thesis by (intro cancel) simp_all
next
  case TypeError
  with assms show ?thesis by (intro slp [of Unexpected]) simp_all
next
  case KeyError
  with assms show ?thesis by (intro slp [of Unexpected]) simp_all
next
  case OtherException
  with assms show ?thesis by (intro slp [of Unexpected]) simp_all
qed

lemma flow_handler_all:
  assumes "handler page a e x = (bs, fl)"
  shows "appends bs = (if fl = Return ClientError then [page] else [])
    \<and> (fl = Next \<or> fl = Return ClientError \<or> fl = Raise CancelledError)
    \<and> (x \<noteq> CancelledError \<longrightarrow> (Cancelled \<in> set bs \<longleftrightarrow> fl = Raise CancelledError))
    \<and> (x = CancelledError \<longrightarrow> bs = [] \<and> fl = Raise CancelledError)
    \<and> (fl \<noteq> Raise CancelledError \<longrightarrow> (\<exists>k. sleeps bs = [wait_time k a]))
    \<and> (fl = Raise CancelledError \<longrightarrow> sleeps bs = [])"
  using assms
proof (cases rule: handler_cases)
  case cancel
  then show ?thesis by simp
next
  case (slp k)
  from flow_sleep_continue [OF slp(2)] slp(1) show ?thesis by fastforce
next
  case cli
  then show ?thesis by fastforce
next
  case last
  then show ?thesis by fastforce
next
  case cut
  then show ?thesis by simp
qed

lemma flow_try_except:
  assumes "try_except page a e = (as, fl)"
  shows "appends as = (if fl = Return Malformed \<or> fl = Return ClientError then [page] else [])
    \<and> (fl = Next \<or> fl = Return Fetched \<or> fl = Return Malformed \<or> fl = Return ClientError
         \<or> fl = Raise CancelledError)
    \<and> (Cancelled \<in> set as \<longleftrightarrow> fl = Raise CancelledError)
    \<and> (fl = Next \<longrightarrow> (\<exists>k. sleeps as = [wait_time k a]))
    \<and> (fl = Return Fetched \<or> fl = Return Malformed \<or> fl = Raise CancelledError \<longrightarrow> sleeps as = [])"
proof (cases "try_body page a e")
  case (Pair cs f)
  note tb = flow_try_body_all [OF Pair]
  show ?thesis
  proof (cases f)
    case Next
    with Pair assms have eq: "as = cs" "fl = Next" by (simp_all add: try_except_def)
    from tb Next have "sleeps cs = [wait_time RateLimited a] \<or> sleeps cs = [wait_time BadStatus a]"
      by simp
    then have "\<exists>k. sleeps cs = [wait_time k a]" by blast
    with tb Next eq show ?thesis by simp
  next
    case (Return r)
    with Pair assms have eq: "as = cs" "fl = Return r" by (simp_all add: try_except_def)
    from tb Return have "r = Fetched \<or> r = Malformed" by (cases r) simp_all
    with tb Return eq show ?thesis by auto
  next
    case (Raise x)
    obtain bs where h: "handler page a e x = (bs, fl)" and eq: "as = cs @ bs"
      using Pair assms Raise by (auto simp: try_except_def split: prod.splits)
    note hd = flow_handler_all [OF h]
    from tb Raise have cs: "appends cs = []" "sleeps cs = []"
      "Cancelled \<in> set cs \<longleftrightarrow> x = CancelledError" by simp_all
    show ?thesis
    proof (cases "x = CancelledError")
      case True
      with hd have "bs = []" "fl = Raise CancelledError" by simp_all
      with cs eq True show ?thesis by simp
    next
      case False
      with hd cs have "Cancelled \<in> set as \<longleftrightarrow> fl = Raise CancelledError"
        using eq by simp
      moreover from hd cs eq
      have "appends as = (if fl = Return ClientError then [page] else [])" by simp
      moreover from hd cs eq
      have "fl \<noteq> Raise CancelledError \<longrightarrow> (\<exists>k. sleeps as = [wait_time k a])"
        "fl = Raise CancelledError \<longrightarrow> sleeps as = []" by simp_all
      moreover from hd have "fl = Next \<or> fl = Return ClientError \<or> fl = Raise CancelledError"
        by simp
      ultimately show ?thesis by auto
    qed
  qed
qed



subsection \<open>Backoff delays\<close>

text \<open>
  C2. The argument of every backoff sleep is a function of the failure branch and the attempt
  index alone: \<open>5 * 2 ^ attempt\<close> after a 429 response (line 37), \<open>2 ^ attempt\<close> after a
  status outside 2xx (line 48), a 5xx \<open>ClientResponseError\<close> (line 81), a connection error
  (line 93) and any other exception (line 106); each of these grows strictly with the attempt
  index, and these are the sleeps the attempt then performs. (The remaining branch, a
  \<open>ClientResponseError\<close> outside 5xx, sleeps a constant 2 seconds, line 87.)
\<close>

theorem backoff_delay:
  "wait_time RateLimited a = 5 * 2 ^ a
   \<and> wait_time BadStatus a = 2 ^ a \<and> wait_time ServerError a = 2 ^ a
   \<and> wait_time ConnectionError a = 2 ^ a \<and> wait_time Unexpected a = 2 ^ a
   \<and> (a < b \<longrightarrow>
        wait_time RateLimited a < wait_time RateLimited b
        \<and> wait_time BadStatus a < wait_time BadStatus b
        \<and> wait_time ServerError a < wait_time ServerError b
        \<and> wait_time ConnectionError a < wait_time ConnectionError b
        \<and> wait_time Unexpected a < wait_time Unexpected b)
   \<and> (sleep_ok e \<and> get_result e = Inr 429 \<longrightarrow>
        try_except page a e = ([Sleep (5 * 2 ^ a)], Next))
   \<and> (sleep_ok e \<and> get_result e = Inr st \<and> st \<noteq> 429 \<and> \<not> (200 \<le> st \<and> st < 300) \<longrightarrow>
        try_except page a e = ([Sleep (2 ^ a)], Next))
   \<and> (sleep_ok e \<and> get_result e = Inl (ClientResponseError st) \<and> 500 \<le> st \<and> st < 600 \<longrightarrow>
        try_except page a e = ([Sleep (2 ^ a)], Next))
   \<and> (sleep_ok e \<and> get_result e = Inl ClientConnectionError \<longrightarrow>
        try_except page a e = ([Sleep (2 ^ a)], Next))
   \<and> (sleep_ok e \<and> get_result e = Inl OtherException \<longrightarrow>
        try_except page a e = ([Sleep (2 ^ a)], Next))"
proof -
  have mono: "a < b \<Longrightarrow> (2::nat) ^ a < 2 ^ b"
    by simp
  have r: "sleep_ok e \<Longrightarrow> get_result e = Inr 429 \<Longrightarrow>
      try_except page a e = ([Sleep (5 * 2 ^ a)], Next)"
    by (simp add: try_except_def try_body_def sleep_continue_def sleep_def wait_time.simps)
  have s: "sleep_ok e \<Longrightarrow> get_result e = Inr st \<Longrightarrow> st \<noteq> 429 \<Longrightarrow>
      \<not> (200 \<le> st \<and> st < 300) \<Longrightarrow> try_except page a e = ([Sleep (2 ^ a)], Next)"
    by (simp add: try_except_def try_body_def sleep_continue_def sleep_def wait_time.simps)
  have c: "sleep_ok e \<Longrightarrow> get_result e = Inl (ClientResponseError st) \<Longrightarrow> 500 \<le> st \<Longrightarrow>
      st < 600 \<Longrightarrow> try_except page a e = ([Sleep (2 ^ a)], Next)"
    by (simp add: try_except_def try_body_def raised_def sleep_continue_def sleep_def
        wait_time.simps)
  have n: "sleep_ok e \<Longrightarrow> get_result e = Inl ClientConnectionError \<Longrightarrow>
      try_except page a e = ([Sleep (2 ^ a)], Next)"
    by (simp add: try_except_def try_body_def raised_def sleep_continue_def sleep_def
        wait_time.simps)
  have u: "sleep_ok e \<Longrightarrow> get_result e = Inl OtherException \<Longrightarrow>
      try_except page a e = ([Sleep (2 ^ a)], Next)"
    by (simp add: try_except_def try_body_def raised_def sleep_continue_def sleep_def
        wait_time.simps)
  show ?thesis
    using mono r s c n u by (simp add: wait_time.simps)
qed


theorem backoff_delay_witness:
  "wait_time RateLimited 3 = 40 \<and> wait_time ServerError 3 = 8
   \<and> wait_time RateLimited 3 < wait_time RateLimited 4
   \<and> wait_time ServerError 3 < wait_time ServerError 4
   \<and> try_except 7 3 (responds 429) = ([Sleep 40], Next)
   \<and> try_except 7 3 (responds 503) = ([Sleep 8], Next)
   \<and> try_except 7 3 (raises (ClientResponseError 502)) = ([Sleep 8], Next)
   \<and> try_except 7 3 (raises ClientConnectionError) = ([Sleep 8], Next)
   \<and> try_except 7 3 (raises OtherException) = ([Sleep 8], Next)"
  using backoff_delay [of 3 4 "responds 429" 7 503]
    backoff_delay [of 3 4 "responds 503" 7 503]
    backoff_delay [of 3 4 "raises (ClientResponseError 502)" 7 502]
    backoff_delay [of 3 4 "raises ClientConnectionError" 7 0]
    backoff_delay [of 3 4 "raises OtherException" 7 0]
  by (simp add: responds_def raises_def)

subsection \<open>Traces of the attempt loop\<close>

lemma scoped_inner: "list_all (inner page) bs \<Longrightarrow> scoped True (bs @ [Release])"
proof (induction bs)
  case Nil
  then show ?case by simp
next
  case (Cons b bs)
  then show ?case by (cases b) simp_all
qed

lemma scoped_append: "scoped h xs \<Longrightarrow> scoped False ys \<Longrightarrow> scoped h (xs @ ys)"
  by (induction h xs rule: scoped.induct) auto

lemma attempt_once_cases:
  assumes "attempt_once page a e = (as, fl)"
  obtains (cancelled) "\<not> acquire_ok e" "as = [Cancelled]" "fl = Raise CancelledError"
    | (entered) bs where "acquire_ok e" "try_except page a e = (bs, fl)"
        "as = Acquire # Fetching (a + 1) # bs @ [Release]"
  using assms unfolding attempt_once_def
  by (cases "acquire_ok e"; cases "try_except page a e"; simp)

lemma flow_attempt_once:
  assumes "attempt_once page a e = (as, fl)"
  shows "appends as = (if fl = Return Malformed \<or> fl = Return ClientError then [page] else [])
    \<and> (fl = Next \<or> fl = Return Fetched \<or> fl = Return Malformed \<or> fl = Return ClientError
         \<or> fl = Raise CancelledError)
    \<and> (Cancelled \<in> set as \<longleftrightarrow> fl = Raise CancelledError)
    \<and> (fl = Next \<longrightarrow> (\<exists>k. sleeps as = [wait_time k a]))
    \<and> (fl = Return Fetched \<or> fl = Return Malformed \<or> fl = Raise CancelledError \<longrightarrow> sleeps as = [])
    \<and> (fl \<noteq> Raise CancelledError \<longrightarrow> fetchings as = [a + 1])
    \<and> scoped False as"
  using assms
proof (cases rule: attempt_once_cases)
  case cancelled
  then show ?thesis by simp
next
  case (entered bs)
  note te = flow_try_except [OF entered(2)]
  have inn: "list_all (inner page) bs" by (rule inner_try_except [OF entered(2)])
  have f: "fetchings bs = []"
    using inn
  proof (induction bs)
    case Nil
    then show ?case by simp
  next
    case (Cons b bs)
    then show ?case by (cases b) simp_all
  qed
  have sc: "scoped False as"
    using scoped_inner [OF inn] entered(3) by simp
  from te f sc entered(3) show ?thesis by simp
qed

lemma attempts_cases:
  assumes "attempts page env (a # rest) = (tr, r)"
  obtains (again) as bs where "attempt_once page a (env a) = (as, Next)"
        "attempts page env rest = (bs, r)" "tr = as @ bs"
    | (ret) v where "attempt_once page a (env a) = (tr, Return v)" "r = Inr v"
    | (exc) x where "attempt_once page a (env a) = (tr, Raise x)" "r = Inl x"
proof (cases "attempt_once page a (env a)")
  case (Pair as fl)
  show ?thesis
  proof (cases fl)
    case Next
    obtain bs r' where b: "attempts page env rest = (bs, r')"
      by (cases "attempts page env rest")
    with assms Pair Next have "tr = as @ bs" "r = r'" by simp_all
    with Pair Next b show ?thesis by (intro again) simp_all
  next
    case (Return v)
    with assms Pair show ?thesis by (intro ret [of v]) simp_all
  next
    case (Raise x)
    with assms Pair show ?thesis by (intro exc [of x]) simp_all
  qed
qed

lemma flow_attempts:
  "attempts page env xs = (tr, r) \<Longrightarrow>
     appends tr = (if recorded r then [page] else [])
     \<and> (r = Inr Fetched \<or> r = Inr Malformed \<or> r = Inr ClientError \<or> r = Inr Exhausted
          \<or> r = Inl CancelledError)
     \<and> (Cancelled \<in> set tr \<longleftrightarrow> r = Inl CancelledError)
     \<and> scoped False tr"
proof (induction xs arbitrary: tr r)
  case Nil
  then show ?case by auto
next
  case (Cons a rest)
  from Cons.prems show ?case
  proof (cases rule: attempts_cases)
    case (again as bs)
    note ao = flow_attempt_once [OF again(1)]
    note ih = Cons.IH [OF again(2)]
    from ao ih again(3) show ?thesis by (simp add: scoped_append)
  next
    case (ret v)
    note ao = flow_attempt_once [OF ret(1)]
    from ao ret(2) show ?thesis by (cases v) auto
  next
    case (exc x)
    note ao = flow_attempt_once [OF exc(1)]
    from ao exc(2) show ?thesis by auto
  qed
qed

lemma flow_fetch_page:
  "fetch_page page env = (tr, r) \<Longrightarrow>
     appends tr = (if recorded r then [page] else [])
     \<and> (r = Inr Fetched \<or> r = Inr Malformed \<or> r = Inr ClientError \<or> r = Inr Exhausted
          \<or> r = Inl CancelledError)
     \<and> (Cancelled \<in> set tr \<longleftrightarrow> r = Inl CancelledError)
     \<and> scoped False tr"
  unfolding fetch_page_def by (rule flow_attempts)

lemma attempts_prefix:
  "\<forall>j\<in>set xs. snd (attempt_once page j (env j)) = Next \<Longrightarrow>
     attempts page env (xs @ ys) =
       (concat (map (\<lambda>j. fst (attempt_once page j (env j))) xs) @ fst (attempts page env ys),
        snd (attempts page env ys))"
proof (induction xs)
  case Nil
  then show ?case by simp
next
  case (Cons a xs)
  then have n: "snd (attempt_once page a (env a)) = Next" by simp
  obtain as where a: "attempt_once page a (env a) = (as, Next)"
    using n by (cases "attempt_once page a (env a)") simp
  from Cons have ih: "attempts page env (xs @ ys) =
       (concat (map (\<lambda>j. fst (attempt_once page j (env j))) xs) @ fst (attempts page env ys),
        snd (attempts page env ys))" by simp
  show ?case by (simp add: a ih)
qed

lemma upt_split: "k < n \<Longrightarrow> [0..<n] = [0..<k] @ k # [Suc k..<n]"
  by (metis le_add2 less_or_eq_imp_le upt_add_eq_append upt_conv_Cons plus_nat.add_0 le0 le_add_diff_inverse)

lemma fetch_page_stops:
  assumes "k < max_attempts"
    and "\<forall>j<k. snd (attempt_once page j (env j)) = Next"
    and "attempt_once page k (env k) = (as, fl)" and "fl \<noteq> Next"
  shows "fetch_page page env =
           (retried page env k @ as, case fl of Return v \<Rightarrow> Inr v | Raise x \<Rightarrow> Inl x)"
proof -
  have pre: "\<forall>j\<in>set [0..<k]. snd (attempt_once page j (env j)) = Next"
    using assms(2) by simp
  have "attempts page env (k # [Suc k..<max_attempts]) =
      (as, case fl of Return v \<Rightarrow> Inr v | Raise x \<Rightarrow> Inl x)"
    using assms(3,4) by (cases fl) simp_all
  then show ?thesis
    unfolding fetch_page_def retried_def upt_split [OF assms(1)] attempts_prefix [OF pre]
    by simp
qed

lemma upt_5: "[0..<5] = [0, 1, 2, 3, 4]"
  by (simp add: upt_rec)

subsection \<open>Exhaustion\<close>

lemma attempt_500:
  assumes "get_result e = Inr 500" "acquire_ok e" "sleep_ok e"
  shows "attempt_once page a e = ([Acquire, Fetching (a + 1), Sleep (2 ^ a), Release], Next)"
  using assms
  by (simp add: attempt_once_def try_except_def try_body_def sleep_continue_def sleep_def
      wait_time.simps)

text \<open>
  C3. When every attempt is answered with status 500 and the task is not cancelled, the loop
  makes exactly \<open>max_attempts\<close> attempts (the counters shown are 1 to 5), each followed by a
  sleep of \<open>2 ^ attempt\<close> seconds, and only then appends the page to \<^verbatim>\<open>failed_attempts\<close>,
  once. The sleeps before the append add up to at least the first \<open>max_attempts - 1\<close>
  server-error delays (they are 31 seconds against 15: the code also sleeps after the last
  attempt).
\<close>

theorem exhaustion_on_500:
  assumes "\<forall>a<max_attempts. get_result (env a) = Inr 500"
    and "\<forall>a<max_attempts. acquire_ok (env a) \<and> sleep_ok (env a)"
  shows "fetch_page page env =
           (concat (map (\<lambda>a. [Acquire, Fetching (a + 1), Sleep (2 ^ a), Release])
                      [0..<max_attempts]) @ [Append page],
            Inr Exhausted)
         \<and> fetchings (fst (fetch_page page env)) = [1..<max_attempts + 1]
         \<and> length (fetchings (fst (fetch_page page env))) = max_attempts
         \<and> appends (fst (fetch_page page env)) = [page]
         \<and> (\<Sum>i<max_attempts - 1. wait_time ServerError i)
              \<le> sum_list (sleeps (butlast (fst (fetch_page page env))))"
proof -
  have a: "attempt_once page a (env a) = ([Acquire, Fetching (a + 1), Sleep (2 ^ a), Release], Next)"
    if "a < 5" for a
    using assms that by (intro attempt_500) (simp_all add: max_attempts_def)
  have f: "fetch_page page env =
      ([Acquire, Fetching 1, Sleep 1, Release, Acquire, Fetching 2, Sleep 2, Release,
        Acquire, Fetching 3, Sleep 4, Release, Acquire, Fetching 4, Sleep 8, Release,
        Acquire, Fetching 5, Sleep 16, Release, Append page], Inr Exhausted)"
    unfolding fetch_page_def max_attempts_def upt_5
    using a [of 0] a [of 1] a [of 2] a [of 3] a [of 4] by simp
  have "{..<4::nat} = {0, 1, 2, 3}"
    by auto
  then have s: "(\<Sum>i<4. wait_time ServerError i) = 15"
    by (simp add: wait_time.simps)
  have u: "[1..<6] = [1, 2, 3, 4, 5::nat]"
    by (simp add: upt_rec)
  show ?thesis
    unfolding f using s u by (simp add: max_attempts_def upt_5)
qed

theorem exhaustion_on_500_witness:
  "snd (fetch_page 3 (always (responds 500))) = Inr Exhausted
   \<and> fetchings (fst (fetch_page 3 (always (responds 500)))) = [1, 2, 3, 4, 5]
   \<and> appends (fst (fetch_page 3 (always (responds 500)))) = [3]
   \<and> sleeps (fst (fetch_page 3 (always (responds 500)))) = [1, 2, 4, 8, 16]"
proof -
  have h1: "\<forall>a<max_attempts. get_result (always (responds 500) a) = Inr 500"
    by (simp add: always_def responds_def)
  have h2: "\<forall>a<max_attempts. acquire_ok (always (responds 500) a) \<and> sleep_ok (always (responds 500) a)"
    by (simp add: always_def responds_def)
  have u: "[1..<6] = [1, 2, 3, 4, 5::nat]"
    by (simp add: upt_rec)
  from exhaustion_on_500 [OF h1 h2, of 3] u show ?thesis
    by (simp add: max_attempts_def upt_5)
qed

subsection \<open>A body without the nested result list\<close>

lemma attempt_malformed:
  assumes "acquire_ok e" "get_result e = Inr st" "200 \<le> st" "st < 300"
    and "json_result e = Inr data" "has_results data = Inr False"
  shows "attempt_once page a e =
           ([Acquire, Fetching (a + 1), Append page, Release], Return Malformed)"
  using assms
  by (simp add: attempt_once_def try_except_def try_body_def process_def)

text \<open>
  C4, as amended. When an attempt is answered with a 2xx status and a body on which the test
  of line 52 evaluates to false (an object or array without \<^verbatim>\<open>standings\<close>, or whose
  \<^verbatim>\<open>standings\<close> supports \<^verbatim>\<open>in\<close> and has no \<^verbatim>\<open>results\<close>), the page is appended to
  \<^verbatim>\<open>failed_attempts\<close> in that attempt, without a sleep, and no further attempt is made; when
  it is the first attempt the counter shown is 1 and no backoff delay has been consumed.
\<close>

theorem malformed_no_retry:
  assumes "k < max_attempts"
    and "\<forall>j<k. snd (attempt_once page j (env j)) = Next"
    and "acquire_ok (env k)" and "get_result (env k) = Inr st" and "200 \<le> st" and "st < 300"
    and "json_result (env k) = Inr data" and "has_results data = Inr False"
  shows "fetch_page page env =
           (retried page env k @ [Acquire, Fetching (k + 1), Append page, Release],
            Inr Malformed)
         \<and> (k = 0 \<longrightarrow>
               fetch_page page env = ([Acquire, Fetching 1, Append page, Release], Inr Malformed)
               \<and> fetchings (fst (fetch_page page env)) = [1]
               \<and> sleeps (fst (fetch_page page env)) = []
               \<and> appends (fst (fetch_page page env)) = [page])"
proof -
  have a: "attempt_once page k (env k) =
      ([Acquire, Fetching (k + 1), Append page, Release], Return Malformed)"
    using assms(3-8) by (rule attempt_malformed)
  have f: "fetch_page page env =
      (retried page env k @ [Acquire, Fetching (k + 1), Append page, Release], Inr Malformed)"
    using fetch_page_stops [OF assms(1,2) a] by simp
  show ?thesis
    unfolding f by (simp add: retried_def)
qed

theorem malformed_no_retry_witness:
  "fetch_page 3 (always (answers no_standings)) =
     ([Acquire, Fetching 1, Append 3, Release], Inr Malformed)
   \<and> fetchings (fst (fetch_page 3 (always (answers no_standings)))) = [1]
   \<and> sleeps (fst (fetch_page 3 (always (answers no_standings)))) = []"
proof -
  have h: "has_results no_standings = Inr False"
    by (simp add: has_results_def no_standings_def)
  have e: "acquire_ok (always (answers no_standings) 0)"
    "get_result (always (answers no_standings) 0) = Inr 200"
    "json_result (always (answers no_standings) 0) = Inr no_standings"
    by (simp_all add: always_def answers_def)
  have k: "(0::nat) < max_attempts"
    by (simp add: max_attempts_def)
  have p: "\<forall>j<0::nat. snd (attempt_once 3 j (always (answers no_standings) j)) = Next"
    by simp
  from malformed_no_retry [OF k p e(1) e(2) _ _ e(3) h] show ?thesis
    by (simp add: retried_def)
qed

text \<open>
  C4 as stated, for every body that lacks the nested keys, fails: on the body
  \<^verbatim>\<open>{"standings": null}\<close> the test of line 52 itself raises \<open>TypeError\<close>, which the last
  handler (line 105) treats as an unexpected error, so the page is retried with backoff up
  to the ceiling.
\<close>

theorem malformed_no_retry_counterexample:
  "\<not> has_nested_keys null_standings
   \<and> get_result (answers null_standings) = Inr 200
   \<and> json_result (answers null_standings) = Inr null_standings
   \<and> fetchings (fst (fetch_page 3 (always (answers null_standings)))) = [1, 2, 3, 4, 5]
   \<and> sleeps (fst (fetch_page 3 (always (answers null_standings)))) = [1, 2, 4, 8, 16]
   \<and> snd (fetch_page 3 (always (answers null_standings))) = Inr Exhausted"
  by (simp add: null_standings_def answers_def always_def fetch_page_def max_attempts_def upt_5
      attempt_once_def try_except_def try_body_def process_def has_results_def
      sleep_continue_def sleep_def wait_time.simps)

subsection \<open>Cancellation\<close>

lemma attempt_cancelled_get:
  assumes "acquire_ok e" "get_result e = Inl CancelledError"
  shows "attempt_once page a e =
           ([Acquire, Fetching (a + 1), Cancelled, Release], Raise CancelledError)"
  using assms by (simp add: attempt_once_def try_except_def try_body_def raised_def)

lemma attempt_cancelled_json:
  assumes "acquire_ok e" "get_result e = Inr st" "200 \<le> st" "st < 300"
    and "json_result e = Inl CancelledError"
  shows "attempt_once page a e =
           ([Acquire, Fetching (a + 1), Cancelled, Release], Raise CancelledError)"
  using assms by (simp add: attempt_once_def try_except_def try_body_def raised_def)

lemma attempt_cancelled_sleep:
  assumes "acquire_ok e" "get_result e = Inr st" "\<not> (200 \<le> st \<and> st < 300)" "\<not> sleep_ok e"
  shows "attempt_once page a e =
           ([Acquire, Fetching (a + 1), Cancelled, Release], Raise CancelledError)"
  using assms
  by (simp add: attempt_once_def try_except_def try_body_def sleep_continue_def sleep_def)

text \<open>
  C8. A \<open>CancelledError\<close> delivered at an await of an attempt (while waiting for the
  semaphore, in \<^verbatim>\<open>session.get\<close>, in \<^verbatim>\<open>response.json()\<close> or in a backoff sleep) leaves
  \<^verbatim>\<open>fetch_page\<close> as an exception: it is re-raised by the handler of lines 99--103, it is
  never turned into a retry or a return, no further attempt is made, and the page is not
  appended to \<^verbatim>\<open>failed_attempts\<close>. Of the exceptions of \<open>exn\<close> it is the only one that leaves
  \<^verbatim>\<open>fetch_page\<close>: every other one is caught at lines 75--110.
\<close>

theorem cancellation_propagates:
  "(Cancelled \<in> set (fst (fetch_page page env)) \<longrightarrow>
      snd (fetch_page page env) = Inl CancelledError
      \<and> appends (fst (fetch_page page env)) = [])
   \<and> (snd (fetch_page page env) = Inl x \<longrightarrow>
        x = CancelledError \<and> Cancelled \<in> set (fst (fetch_page page env)))
   \<and> (\<not> acquire_ok e \<longrightarrow> attempt_once page a e = ([Cancelled], Raise CancelledError))
   \<and> (acquire_ok e \<and> get_result e = Inl CancelledError \<longrightarrow>
        attempt_once page a e =
          ([Acquire, Fetching (a + 1), Cancelled, Release], Raise CancelledError))
   \<and> (acquire_ok e \<and> get_result e = Inr st \<and> 200 \<le> st \<and> st < 300
        \<and> json_result e = Inl CancelledError \<longrightarrow>
        attempt_once page a e =
          ([Acquire, Fetching (a + 1), Cancelled, Release], Raise CancelledError))
   \<and> (acquire_ok e \<and> get_result e = Inr st \<and> \<not> (200 \<le> st \<and> st < 300) \<and> \<not> sleep_ok e \<longrightarrow>
        attempt_once page a e =
          ([Acquire, Fetching (a + 1), Cancelled, Release], Raise CancelledError))
   \<and> (k < max_attempts \<and> (\<forall>j<k. snd (attempt_once page j (env j)) = Next)
        \<and> snd (attempt_once page k (env k)) = Raise CancelledError \<longrightarrow>
        fetch_page page env =
          (retried page env k @ fst (attempt_once page k (env k)), Inl CancelledError))"
proof -
  obtain tr r where f: "fetch_page page env = (tr, r)"
    by (cases "fetch_page page env")
  note fl = flow_fetch_page [OF f]
  have 1: "Cancelled \<in> set (fst (fetch_page page env)) \<longrightarrow>
      snd (fetch_page page env) = Inl CancelledError
      \<and> appends (fst (fetch_page page env)) = []"
    using fl by (auto simp: f)
  have 2: "snd (fetch_page page env) = Inl x \<longrightarrow>
        x = CancelledError \<and> Cancelled \<in> set (fst (fetch_page page env))"
    using fl by (auto simp: f)
  have 3: "\<not> acquire_ok e \<longrightarrow> attempt_once page a e = ([Cancelled], Raise CancelledError)"
    by (simp add: attempt_once_def)
  have 7: "fetch_page page env =
          (retried page env k @ fst (attempt_once page k (env k)), Inl CancelledError)"
    if k: "k < max_attempts" and p: "\<forall>j<k. snd (attempt_once page j (env j)) = Next"
      and c: "snd (attempt_once page k (env k)) = Raise CancelledError"
  proof -
    obtain as where a: "attempt_once page k (env k) = (as, Raise CancelledError)"
      using c by (cases "attempt_once page k (env k)") simp
    from fetch_page_stops [OF k p a] show ?thesis by (simp add: a)
  qed
  show ?thesis
    using 1 2 3 7 attempt_cancelled_get [of e page a] attempt_cancelled_json [of e st page a]
      attempt_cancelled_sleep [of e st page a]
    by blast
qed

theorem cancellation_propagates_witness:
  "fetch_page 3 (then_env (responds 429) (raises CancelledError)) =
     ([Acquire, Fetching 1, Sleep 5, Release, Acquire, Fetching 2, Cancelled, Release],
      Inl CancelledError)
   \<and> appends (fst (fetch_page 3 (then_env (responds 429) (raises CancelledError)))) = []
   \<and> attempt_once 3 1 (raises CancelledError) =
       ([Acquire, Fetching 2, Cancelled, Release], Raise CancelledError)"
proof -
  let ?env = "then_env (responds 429) (raises CancelledError)"
  have a0: "attempt_once 3 0 (?env 0) = ([Acquire, Fetching 1, Sleep 5, Release], Next)"
    by (simp add: then_env_def responds_def attempt_once_def try_except_def try_body_def
        sleep_continue_def sleep_def wait_time.simps)
  have a1: "attempt_once 3 1 (?env 1) =
      ([Acquire, Fetching 2, Cancelled, Release], Raise CancelledError)"
    by (simp add: then_env_def raises_def attempt_once_def try_except_def try_body_def
        raised_def)
  have k: "(1::nat) < max_attempts"
    by (simp add: max_attempts_def)
  have p: "\<forall>j<1::nat. snd (attempt_once 3 j (?env j)) = Next"
    using a0 by simp
  have e: "acquire_ok (raises CancelledError)" "get_result (raises CancelledError) = Inl CancelledError"
    by (simp_all add: raises_def)
  from cancellation_propagates [of 3 ?env CancelledError "raises CancelledError" 1 200 1]
    k p a0 a1 e
  show ?thesis
    by (simp add: retried_def)
qed

subsection \<open>The event loop\<close>

lemma concat_update_count:
  "i < length ts \<Longrightarrow> ts ! i = a # r \<Longrightarrow>
     count_list (concat ts) x = (if a = x then 1 else 0) + count_list (concat (ts[i := r])) x"
proof (induction ts arbitrary: i)
  case Nil
  then show ?case by simp
next
  case (Cons t ts)
  then show ?case by (cases i) auto
qed

lemma concat_update_length:
  "i < length ts \<Longrightarrow> ts ! i = a # r \<Longrightarrow>
     length (concat ts) = Suc (length (concat (ts[i := r])))"
proof (induction ts arbitrary: i)
  case Nil
  then show ?case by simp
next
  case (Cons t ts)
  then show ?case by (cases i) auto
qed

lemma filter_update_count:
  "i < length hs \<Longrightarrow>
     length (filter id (hs[i := b])) + (if hs ! i then 1 else 0) =
     length (filter id hs) + (if b then 1 else 0)"
proof (induction hs arbitrary: i)
  case Nil
  then show ?case by simp
next
  case (Cons h hs)
  show ?case
  proof (cases i)
    case 0
    then show ?thesis by simp
  next
    case (Suc j)
    with Cons.prems have "j < length hs" by simp
    from Cons.IH [OF this] Suc show ?thesis
      by (cases h; cases b; cases "hs ! j"; simp)
  qed
qed

lemma step_cases:
  assumes "step i s = Some s'"
  obtains a rest u where "i < length (tasks s)" "tasks s ! i = a # rest"
    "perform a i s = Some u" "s' = u\<lparr>tasks := (tasks u)[i := rest]\<rparr>"
  using assms unfolding step_def
  by (cases "i < length (tasks s)"; cases "tasks s ! i"; simp split: option.splits)

lemma perform_tasks: "perform a i s = Some u \<Longrightarrow> tasks u = tasks s"
  by (cases a) (auto split: if_splits)

lemma perform_ledger:
  "perform a i s = Some u \<Longrightarrow>
     failed_attempts u = failed_attempts s @ appends [a] \<and> out u = out s @ writes [a]"
  by (cases a) (auto split: if_splits)

lemma inv_step:
  assumes "inv capacity s" and "step i s = Some s'"
  shows "inv capacity s'"
  using assms(2)
proof (cases rule: step_cases)
  case (1 a rest u)
  from assms(1) have len: "length (holding s) = length (tasks s)"
    and sc: "\<And>j. j < length (tasks s) \<Longrightarrow> scoped (holding s ! j) (tasks s ! j)"
    and fr: "free s + length (filter id (holding s)) = capacity"
    by (simp_all add: inv_def in_flight_def)
  from 1(1) len have ih: "i < length (holding s)" by simp
  from sc [OF 1(1)] 1(2) have sci: "scoped (holding s ! i) (a # rest)" by simp
  have other: "scoped (hs ! j) ((tasks s)[i := rest] ! j)"
    if "j < length (tasks s)" "j \<noteq> i" "hs ! j = holding s ! j" for j hs
    using that sc [of j] by simp
  show ?thesis
  proof (cases a)
    case Acquire
    with 1(3) have pos: "free s \<noteq> 0"
      and u: "u = s\<lparr>free := free s - 1, holding := (holding s)[i := True]\<rparr>"
      by (simp_all split: if_splits)
    from sci Acquire have nh: "\<not> holding s ! i" and r: "scoped True rest" by simp_all
    from filter_update_count [OF ih, of True] nh
    have "length (filter id ((holding s)[i := True])) = Suc (length (filter id (holding s)))"
      by simp
    with fr pos have fr': "free s - 1 + length (filter id ((holding s)[i := True])) = capacity"
      by simp
    have "scoped ((holding s)[i := True] ! j) ((tasks s)[i := rest] ! j)"
      if "j < length (tasks s)" for j
      using that r ih other [of j "(holding s)[i := True]"] by (cases "j = i") simp_all
    with len fr' show ?thesis
      by (simp add: inv_def in_flight_def 1(4) u)
  next
    case Release
    with 1(3) have u: "u = s\<lparr>free := free s + 1, holding := (holding s)[i := False]\<rparr>"
      by simp
    from sci Release have h: "holding s ! i" and r: "scoped False rest" by simp_all
    from filter_update_count [OF ih, of False] h
    have "Suc (length (filter id ((holding s)[i := False]))) = length (filter id (holding s))"
      by simp
    with fr have fr': "free s + 1 + length (filter id ((holding s)[i := False])) = capacity"
      by simp
    have "scoped ((holding s)[i := False] ! j) ((tasks s)[i := rest] ! j)"
      if "j < length (tasks s)" for j
      using that r ih other [of j "(holding s)[i := False]"] by (cases "j = i") simp_all
    with len fr' show ?thesis
      by (simp add: inv_def in_flight_def 1(4) u)
  next
    case (Fetching n)
    with 1(3) have u: "holding u = holding s" "free u = free s" "tasks u = tasks s" by auto
    from sci Fetching have r: "scoped (holding s ! i) rest" by simp
    have "scoped (holding s ! j) ((tasks s)[i := rest] ! j)" if "j < length (tasks s)" for j
      using that r other [of j "holding s"] by (cases "j = i") simp_all
    with len fr show ?thesis
      by (simp add: inv_def in_flight_def 1(4) u)
  next
    case (Sleep d)
    with 1(3) have u: "holding u = holding s" "free u = free s" "tasks u = tasks s" by auto
    from sci Sleep have r: "scoped (holding s ! i) rest" by auto
    have "scoped (holding s ! j) ((tasks s)[i := rest] ! j)" if "j < length (tasks s)" for j
      using that r other [of j "holding s"] by (cases "j = i") simp_all
    with len fr show ?thesis
      by (simp add: inv_def in_flight_def 1(4) u)
  next
    case (Write p obj)
    with 1(3) have u: "holding u = holding s" "free u = free s" "tasks u = tasks s" by auto
    from sci Write have r: "scoped (holding s ! i) rest" by simp
    have "scoped (holding s ! j) ((tasks s)[i := rest] ! j)" if "j < length (tasks s)" for j
      using that r other [of j "holding s"] by (cases "j = i") simp_all
    with len fr show ?thesis
      by (simp add: inv_def in_flight_def 1(4) u)
  next
    case (Append p)
    with 1(3) have u: "holding u = holding s" "free u = free s" "tasks u = tasks s" by auto
    from sci Append have r: "scoped (holding s ! i) rest" by simp
    have "scoped (holding s ! j) ((tasks s)[i := rest] ! j)" if "j < length (tasks s)" for j
      using that r other [of j "holding s"] by (cases "j = i") simp_all
    with len fr show ?thesis
      by (simp add: inv_def in_flight_def 1(4) u)
  next
    case Cancelled
    with 1(3) have u: "holding u = holding s" "free u = free s" "tasks u = tasks s" by auto
    from sci Cancelled have r: "scoped (holding s ! i) rest" by simp
    have "scoped (holding s ! j) ((tasks s)[i := rest] ! j)" if "j < length (tasks s)" for j
      using that r other [of j "holding s"] by (cases "j = i") simp_all
    with len fr show ?thesis
      by (simp add: inv_def in_flight_def 1(4) u)
  qed
qed

lemma inv_exec: "inv capacity s \<Longrightarrow> exec sched s = Some s' \<Longrightarrow> inv capacity s'"
proof (induction sched arbitrary: s)
  case Nil
  then show ?case by simp
next
  case (Cons i sched)
  then show ?case by (auto split: option.splits dest: inv_step)
qed

lemma inv_init: "list_all (scoped False) ts \<Longrightarrow> inv capacity (init capacity ts)"
  by (simp add: inv_def init_def in_flight_def list_all_length)

lemma count_appends: "count_list (appends tr) p = count_list tr (Append p)"
  by (induction tr rule: appends.induct) simp_all

lemma count_writes: "count_list (writes tr) (p, obj) = count_list tr (Write p obj)"
  by (induction tr rule: writes.induct) simp_all

lemma ledger_step:
  assumes "step i s = Some s'"
  shows "count_list (failed_attempts s') p + count_list (concat (tasks s')) (Append p) =
         count_list (failed_attempts s) p + count_list (concat (tasks s)) (Append p)"
  using assms
proof (cases rule: step_cases)
  case (1 a rest u)
  note c = concat_update_count [OF 1(1,2)]
  note t = perform_tasks [OF 1(3)]
  note l = perform_ledger [OF 1(3)]
  show ?thesis
    using c [of "Append p"] t l by (cases a) (simp_all add: 1(4))
qed

lemma out_step:
  assumes "step i s = Some s'"
  shows "count_list (out s') (q, obj) + count_list (concat (tasks s')) (Write q obj) =
         count_list (out s) (q, obj) + count_list (concat (tasks s)) (Write q obj)"
  using assms
proof (cases rule: step_cases)
  case (1 a rest u)
  note c = concat_update_count [OF 1(1,2)]
  note t = perform_tasks [OF 1(3)]
  note l = perform_ledger [OF 1(3)]
  show ?thesis
    using c [of "Write q obj"] t l by (cases a) (auto simp: 1(4))
qed

lemma ledger_exec:
  "exec sched s = Some s' \<Longrightarrow>
     count_list (failed_attempts s') p + count_list (concat (tasks s')) (Append p) =
     count_list (failed_attempts s) p + count_list (concat (tasks s)) (Append p)"
proof (induction sched arbitrary: s)
  case Nil
  then show ?case by simp
next
  case (Cons i sched)
  then obtain u where u: "step i s = Some u" "exec sched u = Some s'"
    by (auto split: option.splits)
  from Cons.IH [OF u(2)] ledger_step [OF u(1), of p] show ?case by simp
qed

lemma out_exec:
  "exec sched s = Some s' \<Longrightarrow>
     count_list (out s') (q, obj) + count_list (concat (tasks s')) (Write q obj) =
     count_list (out s) (q, obj) + count_list (concat (tasks s)) (Write q obj)"
proof (induction sched arbitrary: s)
  case Nil
  then show ?case by simp
next
  case (Cons i sched)
  then obtain u where u: "step i s = Some u" "exec sched u = Some s'"
    by (auto split: option.splits)
  from Cons.IH [OF u(2)] out_step [OF u(1), of q obj] show ?case by simp
qed

lemma step_length:
  "step i s = Some s' \<Longrightarrow> length (concat (tasks s)) = Suc (length (concat (tasks s')))"
proof (erule step_cases)
  fix a rest u
  assume "i < length (tasks s)" "tasks s ! i = a # rest" "perform a i s = Some u"
    "s' = u\<lparr>tasks := (tasks u)[i := rest]\<rparr>"
  then show ?thesis
    using concat_update_length [of i "tasks s" a rest] perform_tasks [of a i s u] by simp
qed

lemma exec_append:
  "exec (xs @ ys) s = (case exec xs s of None \<Rightarrow> None | Some u \<Rightarrow> exec ys u)"
  by (induction xs arbitrary: s) (auto split: option.splits)

lemma perform_enabled: "a \<noteq> Acquire \<or> free s \<noteq> 0 \<Longrightarrow> \<exists>u. perform a i s = Some u"
  by (cases a) auto

lemma step_enabled:
  assumes "i < length (tasks s)" "tasks s ! i = a # rest" "a \<noteq> Acquire \<or> free s \<noteq> 0"
  shows "\<exists>u. step i s = Some u"
proof -
  from perform_enabled [OF assms(3)] obtain u where "perform a i s = Some u" by blast
  with assms(1,2) show ?thesis by (simp add: step_def)
qed

lemma progress:
  assumes "inv capacity s" "0 < capacity" "\<not> finished s"
  shows "\<exists>i u. step i s = Some u"
proof (cases "free s = 0")
  case False
  from assms(3) have "concat (tasks s) \<noteq> []" by (simp add: finished_def)
  then obtain t where "t \<in> set (tasks s)" "t \<noteq> []" by auto
  then obtain i a rest where "i < length (tasks s)" "tasks s ! i = a # rest"
    by (metis in_set_conv_nth list.exhaust)
  with False step_enabled show ?thesis by blast
next
  case True
  with assms(1,2) have "filter id (holding s) \<noteq> []"
    by (auto simp: inv_def in_flight_def)
  then obtain h where "h \<in> set (holding s)" "h"
    by (metis filter_False id_apply)
  then obtain i where i: "i < length (holding s)" "holding s ! i"
    by (metis in_set_conv_nth)
  with assms(1) have l: "i < length (tasks s)" and sc: "scoped True (tasks s ! i)"
    by (auto simp: inv_def)
  have "\<exists>a rest. tasks s ! i = a # rest \<and> a \<noteq> Acquire"
  proof (cases "tasks s ! i")
    case Nil
    with sc show ?thesis by simp
  next
    case (Cons a rest)
    with sc have "a \<noteq> Acquire" by auto
    with Cons show ?thesis by simp
  qed
  then obtain a rest where t: "tasks s ! i = a # rest" and "a \<noteq> Acquire"
    by blast
  with l step_enabled show ?thesis by blast
qed

lemma completes:
  "inv capacity s \<Longrightarrow> 0 < capacity \<Longrightarrow> length (concat (tasks s)) = n \<Longrightarrow>
     \<exists>sched u. exec sched s = Some u \<and> finished u \<and> length sched = n"
proof (induction n arbitrary: s)
  case 0
  then have "exec [] s = Some s \<and> finished s \<and> length ([]::nat list) = 0"
    by (simp add: finished_def)
  then show ?case by blast
next
  case (Suc n)
  from Suc.prems(3) have "concat (tasks s) \<noteq> []"
    by (metis list.size(3) nat.distinct(1))
  then have "\<not> finished s" by (simp add: finished_def)
  from progress [OF Suc.prems(1,2) this] obtain i u where st: "step i s = Some u" by blast
  from step_length [OF st] Suc.prems(3) have "length (concat (tasks u)) = n" by simp
  from Suc.IH [OF inv_step [OF Suc.prems(1) st] Suc.prems(2) this]
  obtain sched v where "exec sched u = Some v" "finished v" "length sched = n" by blast
  with st have "exec (i # sched) s = Some v \<and> finished v \<and> length (i # sched) = Suc n"
    by simp
  then show ?case by blast
qed

subsection \<open>The tasks of a run\<close>

lemma distinct_count: "(\<And>x. count_list xs x \<le> 1) \<Longrightarrow> distinct xs"
proof (induction xs)
  case Nil
  then show ?case by simp
next
  case (Cons y ys)
  have "count_list ys x \<le> 1" for x
    using Cons.prems [of x] by (simp split: if_splits)
  then have d: "distinct ys" by (rule Cons.IH)
  have "y \<notin> set ys"
  proof
    assume "y \<in> set ys"
    then have "count_list ys y \<noteq> 0" by (simp add: count_list_0_iff)
    with Cons.prems [of y] show False by simp
  qed
  with d show ?case by simp
qed

lemma attempt_once_tagged:
  assumes "attempt_once page a e = (as, fl)" and "Write q obj \<in> set as"
  shows "q = page"
  using assms(1)
proof (cases rule: attempt_once_cases)
  case cancelled
  with assms(2) show ?thesis by simp
next
  case (entered bs)
  from inner_try_except [OF entered(2)] have "list_all (inner page) bs" .
  moreover from assms(2) entered(3) have "Write q obj \<in> set bs" by simp
  ultimately have "inner page (Write q obj)" by (auto simp: list_all_iff)
  then show ?thesis by simp
qed

lemma attempts_tagged:
  "attempts page env xs = (tr, r) \<Longrightarrow> Write q obj \<in> set tr \<Longrightarrow> q = page"
proof (induction xs arbitrary: tr r)
  case Nil
  then show ?case by auto
next
  case (Cons a rest)
  from Cons.prems(1) show ?case
  proof (cases rule: attempts_cases)
    case (again as bs)
    with Cons.prems(2) have "Write q obj \<in> set as \<or> Write q obj \<in> set bs" by simp
    with attempt_once_tagged [OF again(1)] Cons.IH [OF again(2)] show ?thesis by blast
  next
    case (ret v)
    with attempt_once_tagged Cons.prems(2) show ?thesis by blast
  next
    case (exc x)
    with attempt_once_tagged Cons.prems(2) show ?thesis by blast
  qed
qed

lemma fetch_page_tagged: "Write q obj \<in> set (fst (fetch_page page env)) \<Longrightarrow> q = page"
  unfolding fetch_page_def
  using attempts_tagged [of page env "[0..<max_attempts]"] by (metis prod.collapse)

lemma fetch_page_appends:
  "count_list (fst (fetch_page page env)) (Append p) =
     (if p = page \<and> recorded (snd (fetch_page page env)) then 1 else 0)"
proof -
  obtain tr r where f: "fetch_page page env = (tr, r)" by (cases "fetch_page page env")
  from flow_fetch_page [OF f] have "appends tr = (if recorded r then [page] else [])" by simp
  then have "count_list (appends tr) p = (if p = page \<and> recorded r then 1 else 0)" by simp
  then show ?thesis by (simp add: f count_appends)
qed

lemma spawn_appends:
  "count_list (concat (map fst (spawn n env))) (Append p) =
     (if 1 \<le> p \<and> p \<le> n \<and> recorded (snd (fetch_page p (env p))) then 1 else 0)"
proof (induction n)
  case 0
  then show ?case by (simp add: spawn_def)
next
  case (Suc n)
  have "spawn (Suc n) env = spawn n env @ [fetch_page (Suc n) (env (Suc n))]"
    by (simp add: spawn_def)
  with Suc fetch_page_appends [of "Suc n" "env (Suc n)" p] show ?case
    by (cases "p = Suc n") auto
qed

lemma spawn_writes:
  "count_list (concat (map fst (spawn n env))) (Write p obj) =
     (if 1 \<le> p \<and> p \<le> n then count_list (fst (fetch_page p (env p))) (Write p obj) else 0)"
proof (induction n)
  case 0
  then show ?case by (simp add: spawn_def)
next
  case (Suc n)
  have s: "spawn (Suc n) env = spawn n env @ [fetch_page (Suc n) (env (Suc n))]"
    by (simp add: spawn_def)
  have "count_list (fst (fetch_page (Suc n) (env (Suc n)))) (Write p obj) = 0" if "p \<noteq> Suc n"
    using that fetch_page_tagged [of p obj "Suc n" "env (Suc n)"] by (auto simp: count_list_0_iff)
  with Suc s show ?case
    by (cases "p = Suc n") auto
qed

lemma spawn_scoped: "list_all (scoped False) (map fst (spawn n env))"
proof -
  have "scoped False (fst (fetch_page p e))" for p e
    using flow_fetch_page [of p e] by (cases "fetch_page p e") simp
  then show ?thesis by (simp add: spawn_def list_all_iff)
qed

lemma spawn_length: "length (spawn n env) = n"
  by (simp add: spawn_def)

lemma spawn_nth: "i < n \<Longrightarrow> spawn n env ! i = fetch_page (i + 1) (env (i + 1))"
  by (simp add: spawn_def del: upt_Suc)

subsection \<open>The semaphore\<close>

lemma scoped_balance:
  "scoped h tr \<Longrightarrow> count_list tr Acquire + (if h then 1 else 0) = count_list tr Release"
  by (induction h tr rule: scoped.induct) (auto split: if_splits)

lemma scoped_sleep:
  "scoped h (pre @ Sleep d # post) \<Longrightarrow>
     count_list pre Acquire + (if h then 1 else 0) = Suc (count_list pre Release)"
  by (induction h pre rule: scoped.induct) (auto split: if_splits)

lemma fetch_page_scoped: "scoped False (fst (fetch_page page env))"
  using flow_fetch_page [of page env] by (cases "fetch_page page env") simp

lemma attempt_once_scoped: "scoped False (fst (attempt_once page a e))"
  using flow_attempt_once [of page a e] by (cases "attempt_once page a e") simp

lemma inv_run:
  "exec sched (init capacity (map fst (spawn n env))) = Some s \<Longrightarrow> inv capacity s"
  by (rule inv_exec [OF inv_init [OF spawn_scoped]])

lemma inv_finished:
  assumes "inv capacity s" "finished s"
  shows "in_flight s = 0" and "free s = capacity"
proof -
  have "\<not> h" if "h \<in> set (holding s)" for h
  proof -
    from that obtain i where i: "i < length (holding s)" "holding s ! i = h"
      by (metis in_set_conv_nth)
    with assms(1) have "i < length (tasks s)" "scoped h (tasks s ! i)"
      by (auto simp: inv_def)
    moreover from assms(2) \<open>i < length (tasks s)\<close> have "tasks s ! i = []"
      by (simp add: finished_def)
    ultimately show ?thesis by simp
  qed
  then have "filter id (holding s) = []"
    by (auto simp: filter_empty_conv)
  then show "in_flight s = 0" by (simp add: in_flight_def)
  with assms(1) show "free s = capacity" by (simp add: inv_def)
qed

lemma scenario_exec:
  "exec scenario_sched (init 2 (map fst (spawn 3 scenario))) = Some scenario_final"
  unfolding scenario_final_def by code_simp

lemma scenario_start:
  "map_option in_flight (exec [0, 1] (init 2 (map fst (spawn 3 scenario)))) = Some 2"
  "map_option free (exec [0, 1] (init 2 (map fst (spawn 3 scenario)))) = Some 0"
  "exec [0, 1, 2] (init 2 (map fst (spawn 3 scenario))) = None"
  by code_simp+

text \<open>
  C5. In every state the event loop can reach, under any schedule, the number of tasks past
  \<open>Acquire\<close> and before \<open>Release\<close> is at most the capacity the semaphore was created with
  (it is the capacity less the semaphore's value); when all tasks have ended no permit is
  held and the value is back at the capacity. Every attempt and every task releases as often
  as it acquires, whatever its awaits yield: also when the attempt ends in an exception the
  last thing it does is to release.
\<close>

theorem rate_gate:
  "(exec sched (init capacity (map fst (spawn n env))) = Some s \<longrightarrow>
      in_flight s \<le> capacity \<and> free s + in_flight s = capacity
      \<and> (finished s \<longrightarrow> in_flight s = 0 \<and> free s = capacity))
   \<and> count_list (fst (attempt_once page a e)) Acquire =
       count_list (fst (attempt_once page a e)) Release
   \<and> count_list (fst (fetch_page page (env page))) Acquire =
       count_list (fst (fetch_page page (env page))) Release
   \<and> (snd (attempt_once page a e) = Raise x \<and> acquire_ok e \<longrightarrow>
        last (fst (attempt_once page a e)) = Release)"
proof -
  have 1: "in_flight s \<le> capacity \<and> free s + in_flight s = capacity
      \<and> (finished s \<longrightarrow> in_flight s = 0 \<and> free s = capacity)"
    if r: "exec sched (init capacity (map fst (spawn n env))) = Some s"
  proof -
    note i = inv_run [OF r]
    then have "free s + in_flight s = capacity" by (simp add: inv_def)
    with inv_finished [OF i] show ?thesis by auto
  qed
  have 2: "count_list (fst (attempt_once page a e)) Acquire =
       count_list (fst (attempt_once page a e)) Release"
    using scoped_balance [OF attempt_once_scoped [of page a e]] by simp
  have 3: "count_list (fst (fetch_page page (env page))) Acquire =
       count_list (fst (fetch_page page (env page))) Release"
    using scoped_balance [OF fetch_page_scoped [of page "env page"]] by simp
  have 4: "last (fst (attempt_once page a e)) = Release" if "acquire_ok e"
    using that by (simp add: attempt_once_def split: prod.splits)
  from 1 2 3 4 show ?thesis by blast
qed

theorem rate_gate_witness:
  "map_option in_flight (exec [0, 1] (init 2 (map fst (spawn 3 scenario)))) = Some 2
   \<and> exec [0, 1, 2] (init 2 (map fst (spawn 3 scenario))) = None
   \<and> exec scenario_sched (init 2 (map fst (spawn 3 scenario))) = Some scenario_final
   \<and> finished scenario_final \<and> in_flight scenario_final = 0 \<and> free scenario_final = 2
   \<and> attempt_once 1 0 (raises CancelledError) =
       ([Acquire, Fetching 1, Cancelled, Release], Raise CancelledError)
   \<and> last (fst (attempt_once 1 0 (raises CancelledError))) = Release"
proof -
  have f: "finished scenario_final"
    by (simp add: finished_def scenario_final_def)
  have a: "attempt_once 1 0 (raises CancelledError) =
       ([Acquire, Fetching 1, Cancelled, Release], Raise CancelledError)"
    by (simp add: attempt_cancelled_get raises_def)
  have k: "acquire_ok (raises CancelledError)"
    by (simp add: raises_def)
  from rate_gate [of scenario_sched 2 3 scenario scenario_final 1 0 "raises CancelledError"
      CancelledError] scenario_exec scenario_start f a k
  show ?thesis by simp
qed

subsection \<open>Backoff inside the scope of the semaphore\<close>

lemma attempt_once_shape:
  assumes "acquire_ok e"
  shows "\<exists>bs. fst (attempt_once page a e) = Acquire # Fetching (a + 1) # bs @ [Release]
           \<and> Acquire \<notin> set bs \<and> Release \<notin> set bs
           \<and> sleeps (fst (attempt_once page a e)) = sleeps bs"
proof -
  obtain bs fl where t: "try_except page a e = (bs, fl)"
    by (cases "try_except page a e")
  from inner_try_except [OF t] have "\<forall>b\<in>set bs. inner page b"
    by (simp add: list_all_iff)
  then have "Acquire \<notin> set bs \<and> Release \<notin> set bs" by auto
  with assms t show ?thesis by (simp add: attempt_once_def)
qed

text \<open>
  C10. Every completed backoff sleep of a task happens while the task holds a permit: in the
  trace of \<^verbatim>\<open>fetch_page\<close> the acquisitions before a sleep outnumber the releases by one.
  An attempt that got the semaphore is \<open>Acquire\<close>, the message, actions that neither acquire
  nor release (among them its sleep), then \<open>Release\<close>: the permit is given back only when
  the attempt's block is left, and taken again by the next attempt. In the event loop a task
  whose next action is a sleep is counted among the tasks in flight, so the semaphore's
  value is below the capacity for as long as it waits.
\<close>

theorem sleep_holds_permit:
  "(fst (fetch_page page (env page)) = pre @ Sleep d # post \<longrightarrow>
      count_list pre Acquire = Suc (count_list pre Release))
   \<and> (acquire_ok e \<longrightarrow>
        (\<exists>bs. fst (attempt_once page a e) = Acquire # Fetching (a + 1) # bs @ [Release]
           \<and> Acquire \<notin> set bs \<and> Release \<notin> set bs
           \<and> sleeps (fst (attempt_once page a e)) = sleeps bs))
   \<and> (\<not> acquire_ok e \<longrightarrow> sleeps (fst (attempt_once page a e)) = [])
   \<and> (exec sched (init capacity (map fst (spawn n env))) = Some s
        \<and> i < length (tasks s) \<and> tasks s ! i = Sleep d # rest \<longrightarrow>
        holding s ! i \<and> 1 \<le> in_flight s \<and> free s < capacity)"
proof -
  have 1: "count_list pre Acquire = Suc (count_list pre Release)"
    if "fst (fetch_page page (env page)) = pre @ Sleep d # post"
    using scoped_sleep [of False pre d post] fetch_page_scoped [of page "env page"] that
    by simp
  have 3: "sleeps (fst (attempt_once page a e)) = []" if "\<not> acquire_ok e"
    using that by (simp add: attempt_once_def)
  have 4: "holding s ! i \<and> 1 \<le> in_flight s \<and> free s < capacity"
    if r: "exec sched (init capacity (map fst (spawn n env))) = Some s"
      and i: "i < length (tasks s)" and t: "tasks s ! i = Sleep d # rest"
  proof -
    note v = inv_run [OF r]
    from v i t have h: "holding s ! i" and l: "i < length (holding s)"
      by (auto simp: inv_def)
    from l have "holding s ! i \<in> set (holding s)" by (rule nth_mem)
    with h have "filter id (holding s) \<noteq> []"
      by (auto simp: filter_empty_conv)
    then have "1 \<le> in_flight s" by (simp add: in_flight_def Suc_le_eq)
    with v h show ?thesis by (auto simp: inv_def)
  qed
  from 1 3 4 attempt_once_shape [of e page a] show ?thesis by blast
qed

theorem sleep_holds_permit_witness:
  "fst (fetch_page 2 (scenario 2)) =
     [Acquire, Fetching 1] @ Sleep 5 #
       [Release, Acquire, Fetching 2,
        Write 2 (JObj [(''Full Name'', JStr ''Cy''), (''Team Name'', JStr ''Greens''),
                       (''Player ID'', JNum 21)]),
        Release]
   \<and> count_list [Acquire, Fetching 1] Acquire = Suc (count_list [Acquire, Fetching 1] Release)
   \<and> fst (attempt_once 2 0 (responds 429)) = [Acquire, Fetching 1, Sleep 5, Release]
   \<and> map_option (\<lambda>s. tasks s ! 1) (exec [0, 1, 0, 1] (init 2 (map fst (spawn 3 scenario)))) =
       Some (Sleep 5 # [Release, Acquire, Fetching 2,
        Write 2 (JObj [(''Full Name'', JStr ''Cy''), (''Team Name'', JStr ''Greens''),
                       (''Player ID'', JNum 21)]),
        Release])
   \<and> map_option (\<lambda>s. holding s ! 1) (exec [0, 1, 0, 1] (init 2 (map fst (spawn 3 scenario)))) =
       Some True"
proof -
  have t: "fst (fetch_page 2 (scenario 2)) =
     [Acquire, Fetching 1] @ Sleep 5 #
       [Release, Acquire, Fetching 2,
        Write 2 (JObj [(''Full Name'', JStr ''Cy''), (''Team Name'', JStr ''Greens''),
                       (''Player ID'', JNum 21)]),
        Release]"
    by code_simp
  have a: "fst (attempt_once 2 0 (responds 429)) = [Acquire, Fetching 1, Sleep 5, Release]"
    by code_simp
  have r: "map_option (\<lambda>s. tasks s ! 1) (exec [0, 1, 0, 1] (init 2 (map fst (spawn 3 scenario)))) =
       Some (Sleep 5 # [Release, Acquire, Fetching 2,
        Write 2 (JObj [(''Full Name'', JStr ''Cy''), (''Team Name'', JStr ''Greens''),
                       (''Player ID'', JNum 21)]),
        Release])"
    "map_option (\<lambda>s. holding s ! 1) (exec [0, 1, 0, 1] (init 2 (map fst (spawn 3 scenario)))) =
       Some True"
    by code_simp+
  from sleep_holds_permit [of 2 scenario "[Acquire, Fetching 1]" 5 _ "responds 429" 0] t a r
  show ?thesis by simp
qed

subsection \<open>The list of failed pages\<close>

lemma run_ledger:
  assumes "exec sched (init capacity (map fst (spawn n env))) = Some s"
  shows "count_list (failed_attempts s) p + count_list (concat (tasks s)) (Append p) =
           (if 1 \<le> p \<and> p \<le> n \<and> recorded (snd (fetch_page p (env p))) then 1 else 0)"
  using ledger_exec [OF assms, of p] spawn_appends [of n env p]
  by (simp add: init_def)

lemma run_out:
  assumes "exec sched (init capacity (map fst (spawn n env))) = Some s"
  shows "count_list (out s) (p, obj) + count_list (concat (tasks s)) (Write p obj) =
           (if 1 \<le> p \<and> p \<le> n then count_list (fst (fetch_page p (env p))) (Write p obj)
            else 0)"
  using out_exec [OF assms, of p obj] spawn_writes [of n env p obj]
  by (simp add: init_def)

lemma run_distinct:
  assumes "exec sched (init capacity (map fst (spawn n env))) = Some s"
  shows "distinct (failed_attempts s)"
proof (rule distinct_count)
  fix p
  from run_ledger [OF assms, of p] show "count_list (failed_attempts s) p \<le> 1"
    by (simp split: if_splits)
qed

lemma final_ledger:
  assumes "exec sched (init capacity (map fst (spawn n env))) = Some s" and "finished s"
  shows "count_list (failed_attempts s) p =
           (if 1 \<le> p \<and> p \<le> n \<and> recorded (snd (fetch_page p (env p))) then 1 else 0)"
proof -
  from assms(2) have c: "concat (tasks s) = []"
    unfolding finished_def .
  from run_ledger [OF assms(1), of p] show ?thesis
    unfolding c by simp
qed

lemma final_ledger_set:
  assumes "exec sched (init capacity (map fst (spawn n env))) = Some s" and "finished s"
  shows "set (failed_attempts s) = {p. 1 \<le> p \<and> p \<le> n \<and> recorded (snd (fetch_page p (env p)))}"
proof -
  have "p \<in> set (failed_attempts s) \<longleftrightarrow>
      1 \<le> p \<and> p \<le> n \<and> recorded (snd (fetch_page p (env p)))" for p
    using final_ledger [OF assms, of p] count_list_0_iff [of "failed_attempts s" p]
    by (simp split: if_splits)
  then show ?thesis by blast
qed

lemma final_out:
  assumes "exec sched (init capacity (map fst (spawn n env))) = Some s" and "finished s"
  shows "count_list (out s) (p, obj) =
           (if 1 \<le> p \<and> p \<le> n then count_list (fst (fetch_page p (env p))) (Write p obj)
            else 0)"
proof -
  from assms(2) have c: "concat (tasks s) = []"
    unfolding finished_def .
  from run_out [OF assms(1), of p obj] show ?thesis
    unfolding c by simp
qed

text \<open>
  C6. A call of \<^verbatim>\<open>fetch_page\<close> appends its page to \<^verbatim>\<open>failed_attempts\<close> once when it ends at
  line 73, line 90 or after line 115, and not at all otherwise; no path appends twice. In every
  state of a run the list holds no page twice; at the end of the run a page whose task
  returned at line 67 is not in it, and a page whose task failed terminally is in it exactly
  once.
\<close>

theorem ledger_once:
  "appends (fst (fetch_page page (env page))) =
     (if snd (fetch_page page (env page)) = Inr Malformed
         \<or> snd (fetch_page page (env page)) = Inr ClientError
         \<or> snd (fetch_page page (env page)) = Inr Exhausted
      then [page] else [])
   \<and> (exec sched (init capacity (map fst (spawn n env))) = Some s \<longrightarrow>
        distinct (failed_attempts s)
        \<and> count_list (failed_attempts s) p \<le> 1
        \<and> (finished s \<and> 1 \<le> p \<and> p \<le> n \<longrightarrow>
             (snd (fetch_page p (env p)) = Inr Fetched \<longrightarrow>
                count_list (failed_attempts s) p = 0)
             \<and> (snd (fetch_page p (env p)) = Inr Malformed
                  \<or> snd (fetch_page p (env p)) = Inr ClientError
                  \<or> snd (fetch_page p (env p)) = Inr Exhausted \<longrightarrow>
                count_list (failed_attempts s) p = 1)))"
proof -
  have rec: "recorded r \<longleftrightarrow> r = Inr Malformed \<or> r = Inr ClientError \<or> r = Inr Exhausted"
    if "r = Inr Fetched \<or> r = Inr Malformed \<or> r = Inr ClientError \<or> r = Inr Exhausted
          \<or> r = Inl CancelledError" for r
    using that by auto
  have out: "snd (fetch_page q (env q)) = Inr Fetched \<or> snd (fetch_page q (env q)) = Inr Malformed
      \<or> snd (fetch_page q (env q)) = Inr ClientError \<or> snd (fetch_page q (env q)) = Inr Exhausted
      \<or> snd (fetch_page q (env q)) = Inl CancelledError" for q
    using flow_fetch_page [of q "env q"] by (cases "fetch_page q (env q)") simp
  have 1: "appends (fst (fetch_page page (env page))) =
     (if snd (fetch_page page (env page)) = Inr Malformed
         \<or> snd (fetch_page page (env page)) = Inr ClientError
         \<or> snd (fetch_page page (env page)) = Inr Exhausted
      then [page] else [])"
    using flow_fetch_page [of page "env page"] rec [OF out [of page]]
    by (cases "fetch_page page (env page)") simp
  have 2: "distinct (failed_attempts s) \<and> count_list (failed_attempts s) p \<le> 1"
    if r: "exec sched (init capacity (map fst (spawn n env))) = Some s"
    using run_distinct [OF r] run_ledger [OF r, of p] by (simp split: if_splits)
  have 3: "(snd (fetch_page p (env p)) = Inr Fetched \<longrightarrow>
                count_list (failed_attempts s) p = 0)
             \<and> (snd (fetch_page p (env p)) = Inr Malformed
                  \<or> snd (fetch_page p (env p)) = Inr ClientError
                  \<or> snd (fetch_page p (env p)) = Inr Exhausted \<longrightarrow>
                count_list (failed_attempts s) p = 1)"
    if r: "exec sched (init capacity (map fst (spawn n env))) = Some s"
      and f: "finished s" and p: "1 \<le> p" "p \<le> n"
    using final_ledger [OF r f, of p] p rec [OF out [of p]] by auto
  from 1 2 3 show ?thesis by blast
qed

theorem ledger_once_witness:
  "appends (fst (fetch_page 3 (scenario 3))) = [3]
   \<and> snd (fetch_page 3 (scenario 3)) = Inr Exhausted
   \<and> snd (fetch_page 1 (scenario 1)) = Inr Fetched
   \<and> exec scenario_sched (init 2 (map fst (spawn 3 scenario))) = Some scenario_final
   \<and> finished scenario_final
   \<and> failed_attempts scenario_final = [3]
   \<and> distinct (failed_attempts scenario_final)
   \<and> count_list (failed_attempts scenario_final) 1 = 0
   \<and> count_list (failed_attempts scenario_final) 3 = 1"
proof -
  have o: "snd (fetch_page 3 (scenario 3)) = Inr Exhausted"
    "snd (fetch_page 1 (scenario 1)) = Inr Fetched"
    by code_simp+
  have f: "finished scenario_final" "failed_attempts scenario_final = [3]"
    by (simp_all add: finished_def scenario_final_def)
  from ledger_once [of 3 scenario scenario_sched 2 3 scenario_final 3]
    ledger_once [of 3 scenario scenario_sched 2 3 scenario_final 1] o f scenario_exec
  show ?thesis by simp
qed

subsection \<open>The run\<close>

lemma main_result:
  assumes "main n capacity env sched = Some res"
  obtains s where "exec sched (init capacity (map fst (spawn n env))) = Some s" "finished s"
    "res = Inr (summary n (failed_attempts s), report (failed_attempts s), out s)"
proof -
  from assms obtain s where e: "exec sched (init capacity (map fst (spawn n env))) = Some s"
    by (auto simp: main_def Let_def split: option.splits)
  with assms have f: "finished s"
    by (auto simp: main_def Let_def split: if_splits)
  with assms e have "res = Inr (summary n (failed_attempts s), report (failed_attempts s), out s)"
    by (auto simp: main_def Let_def gather_def)
  with e f that show ?thesis by blast
qed

lemma main_finished:
  assumes "exec sched (init capacity (map fst (spawn n env))) = Some s" "finished s"
  shows "main n capacity env sched =
           Some (Inr (summary n (failed_attempts s), report (failed_attempts s), out s))"
  using assms by (simp add: main_def Let_def gather_def)

lemma run_extends:
  assumes "0 < capacity" "exec pre (init capacity (map fst (spawn n env))) = Some s"
  shows "\<exists>rest u. exec (pre @ rest) (init capacity (map fst (spawn n env))) = Some u \<and> finished u"
proof -
  from completes [OF inv_run [OF assms(2)] assms(1) refl]
  obtain rest u where "exec rest s = Some u" "finished u" by blast
  with assms(2) have "exec (pre @ rest) (init capacity (map fst (spawn n env))) = Some u"
    by (simp add: exec_append)
  with \<open>finished u\<close> show ?thesis by blast
qed

lemma exec_length:
  "exec sched s = Some u \<Longrightarrow>
     length (concat (tasks s)) = length sched + length (concat (tasks u))"
proof (induction sched arbitrary: s)
  case Nil
  then show ?case by simp
next
  case (Cons i sched)
  then obtain v where v: "step i s = Some v" "exec sched v = Some u"
    by (auto split: option.splits)
  from Cons.IH [OF v(2)] step_length [OF v(1)] show ?case by simp
qed

text \<open>
  C7. \<^verbatim>\<open>main\<close> creates one task per page of 1 to \<open>npages\<close>, task \<open>i\<close> for page \<open>i + 1\<close>; when
  the last is created none has run: all hold their whole trace, none holds a permit and the
  semaphore is untouched, so the limit acts only when a task reaches \<open>Acquire\<close>. The summary
  and the report are computed from a state in which every task has ended. Whatever the
  pages do, a run that has got anywhere can be carried to its end (the event loop is never
  stuck, and a run is no longer than the actions of its tasks), and it then yields the
  summary and the report \<^verbatim>\<open>{"Failed Pages": [...]}\<close> of the pages in \<^verbatim>\<open>failed_attempts\<close>, never
  an exception: \<^verbatim>\<open>gather\<close> is called with \<^verbatim>\<open>return_exceptions=True\<close>. (A cancellation of
  \<^verbatim>\<open>main\<close> itself and failures of the two \<^verbatim>\<open>open\<close> calls are outside the model.)
\<close>

theorem run_completes:
  "length (spawn n env) = n
   \<and> (\<forall>i<n. spawn n env ! i = fetch_page (i + 1) (env (i + 1)))
   \<and> init capacity (map fst (spawn n env)) =
       \<lparr>free = capacity, tasks = map fst (spawn n env), holding = replicate n False,
        out = [], failed_attempts = []\<rparr>
   \<and> (0 < capacity \<and> exec pre (init capacity (map fst (spawn n env))) = Some s \<longrightarrow>
        (\<exists>rest r. main n capacity env (pre @ rest) = Some (Inr r))
        \<and> length pre \<le> length (concat (map fst (spawn n env))))
   \<and> (main n capacity env sched = Some res \<longrightarrow>
        (\<exists>u. exec sched (init capacity (map fst (spawn n env))) = Some u \<and> finished u
           \<and> res = Inr (\<lparr>pages = n,
                           success_count = int n - int (length (failed_attempts u)),
                           failed_count = int (length (failed_attempts u))\<rparr>,
                         JObj [(''Failed Pages'',
                                JArr (map (\<lambda>p. JNum (int p)) (failed_attempts u)))],
                         out u)))"
proof -
  have 1: "length (spawn n env) = n" by (rule spawn_length)
  have 2: "\<forall>i<n. spawn n env ! i = fetch_page (i + 1) (env (i + 1))"
    using spawn_nth by blast
  have 3: "init capacity (map fst (spawn n env)) =
       \<lparr>free = capacity, tasks = map fst (spawn n env), holding = replicate n False,
        out = [], failed_attempts = []\<rparr>"
    by (simp add: init_def spawn_length)
  have 4: "(\<exists>rest r. main n capacity env (pre @ rest) = Some (Inr r))
        \<and> length pre \<le> length (concat (map fst (spawn n env)))"
    if c: "0 < capacity" and e: "exec pre (init capacity (map fst (spawn n env))) = Some s"
  proof -
    from run_extends [OF c e] obtain rest u
      where "exec (pre @ rest) (init capacity (map fst (spawn n env))) = Some u" "finished u"
      by blast
    from main_finished [OF this]
    have "\<exists>rest r. main n capacity env (pre @ rest) = Some (Inr r)" by blast
    moreover from exec_length [OF e]
    have "length pre \<le> length (concat (map fst (spawn n env)))" by (simp add: init_def)
    ultimately show ?thesis by blast
  qed
  have 5: "\<exists>u. exec sched (init capacity (map fst (spawn n env))) = Some u \<and> finished u
           \<and> res = Inr (\<lparr>pages = n,
                           success_count = int n - int (length (failed_attempts u)),
                           failed_count = int (length (failed_attempts u))\<rparr>,
                         JObj [(''Failed Pages'',
                                JArr (map (\<lambda>p. JNum (int p)) (failed_attempts u)))],
                         out u)"
    if "main n capacity env sched = Some res"
    using that by (rule main_result) (auto simp: summary_def report_def)
  from 1 2 3 4 5 show ?thesis by blast
qed

theorem run_completes_witness:
  "length (spawn 3 scenario) = 3
   \<and> spawn 3 scenario ! 2 = fetch_page 3 (scenario 3)
   \<and> exec [] (init 2 (map fst (spawn 3 scenario))) = Some (init 2 (map fst (spawn 3 scenario)))
   \<and> main 3 2 scenario scenario_sched =
       Some (Inr (\<lparr>pages = 3, success_count = 2, failed_count = 1\<rparr>,
                  JObj [(''Failed Pages'', JArr [JNum 3])],
                  out scenario_final))
   \<and> finished scenario_final \<and> failed_attempts scenario_final = [3]"
proof -
  have f: "finished scenario_final" "failed_attempts scenario_final = [3]"
    by (simp_all add: finished_def scenario_final_def)
  have m: "main 3 2 scenario scenario_sched =
       Some (Inr (\<lparr>pages = 3, success_count = 2, failed_count = 1\<rparr>,
                  JObj [(''Failed Pages'', JArr [JNum 3])],
                  out scenario_final))"
    using main_finished [OF scenario_exec f(1)] f(2) by (simp add: summary_def report_def)
  have z: "exec [] (init 2 (map fst (spawn 3 scenario))) = Some (init 2 (map fst (spawn 3 scenario)))"
    by simp
  from run_completes [of 3 scenario 2 "[]" "init 2 (map fst (spawn 3 scenario))" scenario_sched
      "Inr (\<lparr>pages = 3, success_count = 2, failed_count = 1\<rparr>,
                  JObj [(''Failed Pages'', JArr [JNum 3])], out scenario_final)"] m f z
  show ?thesis by simp
qed

subsection \<open>The summary\<close>

lemma attempt_empty:
  assumes "acquire_ok e" "get_result e = Inr st" "200 \<le> st" "st < 300"
    and "json_result e = Inr data" "has_results data = Inr True"
    and "get_results data = Inr results" "py_iter results = Inr []"
  shows "attempt_once page a e = ([Acquire, Fetching (a + 1), Release], Return Fetched)"
  using assms
  by (simp add: attempt_once_def try_except_def try_body_def process_def)

lemma card_pages:
  "card {p. 1 \<le> p \<and> p \<le> n \<and> \<not> R p} = n - card {p. 1 \<le> p \<and> p \<le> (n::nat) \<and> R p}"
proof -
  have "{p. 1 \<le> p \<and> p \<le> n \<and> \<not> R p} = {1..n} - {p. 1 \<le> p \<and> p \<le> n \<and> R p}"
    by auto
  moreover have "{p. 1 \<le> p \<and> p \<le> n \<and> R p} \<subseteq> {1..n}" by auto
  ultimately show ?thesis
    by (simp add: card_Diff_subset finite_subset [of _ "{1..n}"])
qed

lemma card_pages_le: "card {p. 1 \<le> p \<and> p \<le> (n::nat) \<and> R p} \<le> n"
proof -
  have "{p. 1 \<le> p \<and> p \<le> n \<and> R p} \<subseteq> {1..n}" by auto
  then have "card {p. 1 \<le> p \<and> p \<le> n \<and> R p} \<le> card {1..n}"
    by (intro card_mono) simp_all
  then show ?thesis by simp
qed

lemma final_ledger_length:
  assumes "exec sched (init capacity (map fst (spawn n env))) = Some s" and "finished s"
  shows "length (failed_attempts s) =
           card {p. 1 \<le> p \<and> p \<le> n \<and> recorded (snd (fetch_page p (env p)))}"
  using distinct_card [OF run_distinct [OF assms(1)]] final_ledger_set [OF assms] by simp

text \<open>
  C9. The number of succeeded pages printed by \<^verbatim>\<open>main\<close> is \<open>npages\<close> less the length of
  \<^verbatim>\<open>failed_attempts\<close> (lines 147--148): it is the number of pages whose task did not append
  the page, whatever that task wrote. A page answered 2xx with an empty result list writes
  no line, is not appended, and so is counted as succeeded; so is a page whose task ended in
  \<open>CancelledError\<close>, which \<^verbatim>\<open>gather\<close> keeps as a result.
\<close>

theorem success_by_subtraction:
  assumes "main n capacity env sched = Some (Inr (sm, rep, output))"
  shows "success_count sm = int n - failed_count sm
    \<and> failed_count sm =
        int (card {p. 1 \<le> p \<and> p \<le> n \<and> recorded (snd (fetch_page p (env p)))})
    \<and> success_count sm =
        int (card {p. 1 \<le> p \<and> p \<le> n \<and> \<not> recorded (snd (fetch_page p (env p)))})
    \<and> (1 \<le> p \<and> p \<le> n \<and> acquire_ok (env p 0) \<and> get_result (env p 0) = Inr st
         \<and> 200 \<le> st \<and> st < 300 \<and> json_result (env p 0) = Inr data
         \<and> has_results data = Inr True \<and> get_results data = Inr results
         \<and> py_iter results = Inr [] \<longrightarrow>
           fetch_page p (env p) = ([Acquire, Fetching 1, Release], Inr Fetched)
           \<and> p \<notin> set (map fst output)
           \<and> \<not> recorded (snd (fetch_page p (env p))))
    \<and> (snd (fetch_page p (env p)) = Inl CancelledError \<longrightarrow>
          \<not> recorded (snd (fetch_page p (env p))))"
proof -
  from assms obtain s where e: "exec sched (init capacity (map fst (spawn n env))) = Some s"
    and f: "finished s"
    and r: "Inr (sm, rep, output) =
              (Inr (summary n (failed_attempts s), report (failed_attempts s), out s)
                :: exn + run_summary \<times> json \<times> (nat \<times> json) list)"
    by (rule main_result)
  from r have sm: "sm = summary n (failed_attempts s)" and o: "output = out s" by simp_all
  note l = final_ledger_length [OF e f]
  have 1: "success_count sm = int n - failed_count sm"
    by (simp add: sm summary_def)
  have 2: "failed_count sm =
        int (card {p. 1 \<le> p \<and> p \<le> n \<and> recorded (snd (fetch_page p (env p)))})"
    by (simp add: sm summary_def l)
  have 3: "success_count sm =
        int (card {p. 1 \<le> p \<and> p \<le> n \<and> \<not> recorded (snd (fetch_page p (env p)))})"
  proof -
    have "int (card {p. 1 \<le> p \<and> p \<le> n \<and> \<not> recorded (snd (fetch_page p (env p)))}) =
        int n - int (card {p. 1 \<le> p \<and> p \<le> n \<and> recorded (snd (fetch_page p (env p)))})"
      using card_pages_le [of n "\<lambda>p. recorded (snd (fetch_page p (env p)))"]
      unfolding card_pages [of n "\<lambda>p. recorded (snd (fetch_page p (env p)))"]
      by (rule of_nat_diff)
    with 2 1 show ?thesis by simp
  qed
  have 4: "fetch_page p (env p) = ([Acquire, Fetching 1, Release], Inr Fetched)
           \<and> p \<notin> set (map fst output)
           \<and> \<not> recorded (snd (fetch_page p (env p)))"
    if p: "1 \<le> p" "p \<le> n" and a: "acquire_ok (env p 0)" "get_result (env p 0) = Inr st"
      "200 \<le> st" "st < 300" "json_result (env p 0) = Inr data"
      "has_results data = Inr True" "get_results data = Inr results"
      "py_iter results = Inr []"
  proof -
    have at: "attempt_once p 0 (env p 0) = ([Acquire, Fetching (0 + 1), Release], Return Fetched)"
      using a by (rule attempt_empty)
    have k: "(0::nat) < max_attempts" by (simp add: max_attempts_def)
    have pz: "\<forall>j<0::nat. snd (attempt_once p j (env p j)) = Next" by simp
    from fetch_page_stops [OF k pz at]
    have fp: "fetch_page p (env p) = ([Acquire, Fetching 1, Release], Inr Fetched)"
      by (simp add: retried_def)
    have "(p, obj) \<notin> set (out s)" for obj
      using final_out [OF e f, of p obj] p by (simp add: fp count_list_0_iff)
    then have "p \<notin> set (map fst output)" by (auto simp: o)
    with fp show ?thesis by simp
  qed
  have 5: "\<not> recorded (snd (fetch_page p (env p)))"
    if "snd (fetch_page p (env p)) = Inl CancelledError"
    using that by simp
  from 1 2 3 4 5 show ?thesis by blast
qed

lemma unwritten_run:
  "main 2 1 unwritten unwritten_sched =
     Some (Inr (\<lparr>pages = 2, success_count = 2, failed_count = 0\<rparr>,
                JObj [(''Failed Pages'', JArr [])], []))"
  by code_simp

theorem success_by_subtraction_witness:
  "main 2 1 unwritten unwritten_sched =
     Some (Inr (\<lparr>pages = 2, success_count = 2, failed_count = 0\<rparr>,
                JObj [(''Failed Pages'', JArr [])], []))
   \<and> fetch_page 1 (unwritten 1) = ([Acquire, Fetching 1, Release], Inr Fetched)
   \<and> fetch_page 2 (unwritten 2) = ([Acquire, Fetching 1, Cancelled, Release], Inl CancelledError)
   \<and> card {p. 1 \<le> p \<and> p \<le> 2 \<and> \<not> recorded (snd (fetch_page p (unwritten p)))} = 2"
proof -
  have f: "fetch_page 1 (unwritten 1) = ([Acquire, Fetching 1, Release], Inr Fetched)"
    "fetch_page 2 (unwritten 2) = ([Acquire, Fetching 1, Cancelled, Release], Inl CancelledError)"
    by code_simp+
  from success_by_subtraction [OF unwritten_run, of 1 200 "standings []" "JArr []"]
    unwritten_run f
  show ?thesis by simp
qed

subsection \<open>Output or report\<close>

lemma write_players_builds:
  "list_all builds ps \<Longrightarrow> \<forall>j<length ps. ok (i + j) \<Longrightarrow>
     \<exists>ws. write_players page ok i ps = (ws, None) \<and> length (writes ws) = length ps"
proof (induction ps arbitrary: i)
  case Nil
  then show ?case by simp
next
  case (Cons p ps)
  then obtain obj where o: "player_obj p = Inr obj"
    by (cases "player_obj p") simp_all
  from Cons.prems(2) have k: "ok i" by auto
  have "\<forall>j<length ps. ok (Suc i + j)"
  proof (intro allI impI)
    fix j
    assume "j < length ps"
    then have "Suc j < length (p # ps)" by simp
    with Cons.prems(2) have "ok (i + Suc j)" by blast
    then show "ok (Suc i + j)" by simp
  qed
  with Cons.IH [of "Suc i"] Cons.prems(1)
  obtain ws where w: "write_players page ok (Suc i) ps = (ws, None)"
    "length (writes ws) = length ps" by auto
  with o k show ?case by simp
qed

lemma writes_process:
  assumes "process page e data = (as, fl)" "clean_body e data"
  shows "writes as \<noteq> [] \<longleftrightarrow> fl = Return Fetched"
proof (cases "has_results data")
  case (Inl x)
  with assms(1) show ?thesis by (auto simp: process_def)
next
  case (Inr b)
  show ?thesis
  proof (cases b)
    case False
    with Inr assms(1) show ?thesis by (auto simp: process_def)
  next
    case True
    show ?thesis
    proof (cases "get_results data")
      case (Inl x)
      with Inr True assms(1) show ?thesis by (auto simp: process_def)
    next
      case r: (Inr results)
      show ?thesis
      proof (cases "py_iter results")
        case (Inl x)
        with Inr True r assms(1) show ?thesis by (auto simp: process_def)
      next
        case p: (Inr players)
        with Inr True r assms(2) have c: "players \<noteq> []" "list_all builds players"
          "\<forall>j<length players. write_ok e (0 + j)"
          by (simp_all add: clean_body_def list_all_iff)
        from write_players_builds [OF c(2,3), of page] obtain ws
          where w: "write_players page (write_ok e) 0 players = (ws, None)"
            "length (writes ws) = length players" by blast
        with c(1) have "writes ws \<noteq> []" by auto
        with Inr True r p w assms(1) show ?thesis by (auto simp: process_def)
      qed
    qed
  qed
qed

lemma try_body_detail:
  assumes "try_body page a e = (as, fl)"
  obtains (exn) x where "get_result e = Inl x" "raised x = (as, fl)"
    | (slp) st d where "get_result e = Inr st" "sleep_continue e d = (as, fl)"
    | (jexn) st x where "get_result e = Inr st" "json_result e = Inl x" "raised x = (as, fl)"
    | (proc) st data where "get_result e = Inr st" "json_result e = Inr data"
        "process page e data = (as, fl)"
  using assms unfolding try_body_def
  by (cases "get_result e"; cases "json_result e"; simp split: if_splits; blast)

lemma writes_sleep_continue: "sleep_continue e d = (as, fl) \<Longrightarrow> writes as = []"
  by (auto dest: flow_sleep_continue)

lemma writes_try_body:
  assumes "try_body page a e = (as, fl)" "uneventful e"
  shows "(writes as \<noteq> [] \<longleftrightarrow> fl = Return Fetched) \<and> fl \<noteq> Raise CancelledError"
  using assms(1)
proof (cases rule: try_body_detail)
  case (exn x)
  with assms(2) have "x \<noteq> CancelledError" by (auto simp: uneventful_def)
  with flow_raised [OF exn(2)] show ?thesis by simp
next
  case (slp st d)
  from flow_sleep_continue [OF slp(2)] assms(2) show ?thesis by (auto simp: uneventful_def)
next
  case (jexn st x)
  with assms(2) have "x \<noteq> CancelledError" by (auto simp: uneventful_def)
  with flow_raised [OF jexn(3)] show ?thesis by simp
next
  case (proc st data)
  with assms(2) have "clean_body e data" by (simp add: uneventful_def)
  from writes_process [OF proc(3) this] flow_process(7) [OF proc(3)] show ?thesis by simp
qed

lemma writes_handler:
  assumes "handler page a e x = (bs, fl)" "sleep_ok e" "x \<noteq> CancelledError"
  shows "writes bs = [] \<and> (fl = Next \<or> fl = Return ClientError)"
  using assms(1)
proof (cases rule: handler_cases)
  case cancel
  with assms(3) show ?thesis by simp
next
  case (slp k)
  from flow_sleep_continue [OF slp(2)] assms(2) show ?thesis by auto
next
  case cli
  then show ?thesis by simp
next
  case last
  then show ?thesis by simp
next
  case cut
  with assms(2) show ?thesis by simp
qed

lemma writes_try_except:
  assumes "try_except page a e = (as, fl)" "uneventful e"
  shows "(writes as \<noteq> [] \<longleftrightarrow> fl = Return Fetched) \<and> fl \<noteq> Raise CancelledError"
proof (cases "try_body page a e")
  case (Pair cs f)
  note tb = writes_try_body [OF Pair assms(2)]
  show ?thesis
  proof (cases f)
    case Next
    with Pair assms(1) tb show ?thesis by (simp add: try_except_def)
  next
    case (Return r)
    with Pair assms(1) tb show ?thesis by (simp add: try_except_def)
  next
    case (Raise x)
    obtain bs where h: "handler page a e x = (bs, fl)" and eq: "as = cs @ bs"
      using Pair assms(1) Raise by (auto simp: try_except_def split: prod.splits)
    from tb Raise have x: "x \<noteq> CancelledError" and cs: "writes cs = []" by auto
    from assms(2) have "sleep_ok e" by (simp add: uneventful_def)
    from writes_handler [OF h this x] cs eq show ?thesis by auto
  qed
qed

lemma writes_attempt_once:
  assumes "attempt_once page a e = (as, fl)" "uneventful e"
  shows "(writes as \<noteq> [] \<longleftrightarrow> fl = Return Fetched) \<and> fl \<noteq> Raise CancelledError"
  using assms(1)
proof (cases rule: attempt_once_cases)
  case cancelled
  with assms(2) show ?thesis by (simp add: uneventful_def)
next
  case (entered bs)
  from writes_try_except [OF entered(2) assms(2)] entered(3) show ?thesis by simp
qed

lemma writes_attempts:
  "\<forall>a\<in>set xs. uneventful (env a) \<Longrightarrow> attempts page env xs = (tr, r) \<Longrightarrow>
     (writes tr \<noteq> [] \<longleftrightarrow> r = Inr Fetched) \<and> r \<noteq> Inl CancelledError"
proof (induction xs arbitrary: tr r)
  case Nil
  then show ?case by auto
next
  case (Cons a rest)
  from Cons.prems(1) have u: "uneventful (env a)" and ur: "\<forall>a\<in>set rest. uneventful (env a)"
    by simp_all
  from Cons.prems(2) show ?case
  proof (cases rule: attempts_cases)
    case (again as bs)
    from writes_attempt_once [OF again(1) u] have "writes as = []" by simp
    with Cons.IH [OF ur again(2)] again(3) show ?thesis by simp
  next
    case (ret v)
    from writes_attempt_once [OF ret(1) u] ret(2) show ?thesis by auto
  next
    case (exc x)
    from flow_attempt_once [OF exc(1)] have "x = CancelledError" by simp
    with writes_attempt_once [OF exc(1) u] show ?thesis by simp
  qed
qed

lemma writes_fetch_page:
  assumes "\<forall>a<max_attempts. uneventful (env a)"
  shows "(writes (fst (fetch_page page env)) \<noteq> [] \<longleftrightarrow> snd (fetch_page page env) = Inr Fetched)
    \<and> snd (fetch_page page env) \<noteq> Inl CancelledError"
proof -
  from assms have "\<forall>a\<in>set [0..<max_attempts]. uneventful (env a)" by simp
  from writes_attempts [OF this, of page "fst (fetch_page page env)" "snd (fetch_page page env)"]
  show ?thesis by (simp add: fetch_page_def)
qed

lemma set_writes: "(q, obj) \<in> set (writes tr) \<longleftrightarrow> Write q obj \<in> set tr"
  by (induction tr rule: writes.induct) auto

lemma report_inj: "report a = report b \<Longrightarrow> a = b"
proof -
  assume "report a = report b"
  then have "map (\<lambda>p. JNum (int p)) a = map (\<lambda>p. JNum (int p)) b"
    by (simp add: report_def)
  moreover have "inj (\<lambda>p. JNum (int p))"
    by (simp add: inj_def)
  ultimately show "a = b"
    by (simp add: inj_map_eq_map)
qed

lemma final_out_pages:
  assumes "exec sched (init capacity (map fst (spawn n env))) = Some s" and "finished s"
    and "1 \<le> p" "p \<le> n"
  shows "p \<in> set (map fst (out s)) \<longleftrightarrow> writes (fst (fetch_page p (env p))) \<noteq> []"
proof
  assume "p \<in> set (map fst (out s))"
  then obtain obj where "(p, obj) \<in> set (out s)" by auto
  then have "count_list (out s) (p, obj) \<noteq> 0" by (simp add: count_list_0_iff)
  with final_out [OF assms(1,2), of p obj]
  have "count_list (fst (fetch_page p (env p))) (Write p obj) \<noteq> 0" by (simp split: if_splits)
  then have "Write p obj \<in> set (fst (fetch_page p (env p)))" by (simp add: count_list_0_iff)
  then have "(p, obj) \<in> set (writes (fst (fetch_page p (env p))))" by (simp add: set_writes)
  then show "writes (fst (fetch_page p (env p))) \<noteq> []" by auto
next
  assume "writes (fst (fetch_page p (env p))) \<noteq> []"
  then obtain q obj where w: "(q, obj) \<in> set (writes (fst (fetch_page p (env p))))"
    by (cases "writes (fst (fetch_page p (env p)))") auto
  then have m: "Write q obj \<in> set (fst (fetch_page p (env p)))" by (simp add: set_writes)
  from fetch_page_tagged [OF m] have "q = p" .
  with m have "count_list (fst (fetch_page p (env p))) (Write p obj) \<noteq> 0"
    by (simp add: count_list_0_iff)
  with final_out [OF assms(1,2), of p obj] assms(3,4)
  have "count_list (out s) (p, obj) \<noteq> 0" by simp
  then have "(p, obj) \<in> set (out s)" by (simp add: count_list_0_iff)
  then show "p \<in> set (map fst (out s))" by force
qed

text \<open>
  C1, as amended. After a completed run, every page of 1 to \<open>npages\<close> to whose task no
  cancellation was delivered, and whose 2xx bodies, whenever they pass the test of line 52
  and can be iterated, hold a non-empty result list of players that carry \<^verbatim>\<open>player_name\<close>,
  \<^verbatim>\<open>entry_name\<close> and \<^verbatim>\<open>entry\<close> and whose lines the output file accepts, appears in exactly
  one of the output and the failure report.
\<close>

theorem exactly_one_outcome:
  assumes "main n capacity env sched = Some (Inr (sm, report failed, output))"
    and "1 \<le> p" and "p \<le> n"
    and "\<forall>a<max_attempts. uneventful (env p a)"
  shows "exactly_one p output failed"
proof -
  from assms(1) obtain s where e: "exec sched (init capacity (map fst (spawn n env))) = Some s"
    and f: "finished s"
    and r: "Inr (sm, report failed, output) =
              (Inr (summary n (failed_attempts s), report (failed_attempts s), out s)
                :: exn + run_summary \<times> json \<times> (nat \<times> json) list)"
    by (rule main_result)
  from r have o: "output = out s" and "report failed = report (failed_attempts s)" by simp_all
  then have fl: "failed = failed_attempts s" by (simp add: report_inj)
  note w = writes_fetch_page [OF assms(4), of p]
  from final_out_pages [OF e f assms(2,3)] w
  have 1: "p \<in> set (map fst output) \<longleftrightarrow> snd (fetch_page p (env p)) = Inr Fetched"
    by (simp add: o)
  from final_ledger_set [OF e f] assms(2,3)
  have 2: "p \<in> set failed \<longleftrightarrow> recorded (snd (fetch_page p (env p)))"
    by (simp add: fl)
  from flow_fetch_page [of p "env p"] w
  have "snd (fetch_page p (env p)) = Inr Fetched \<or> recorded (snd (fetch_page p (env p)))"
    by (cases "fetch_page p (env p)") auto
  moreover have "\<not> (snd (fetch_page p (env p)) = Inr Fetched
      \<and> recorded (snd (fetch_page p (env p))))" by auto
  ultimately show ?thesis
    unfolding exactly_one_def using 1 2 by blast
qed

lemma scenario_main:
  "main 3 2 scenario scenario_sched =
     Some (Inr (\<lparr>pages = 3, success_count = 2, failed_count = 1\<rparr>, report [3],
                out scenario_final))"
proof -
  have f: "finished scenario_final" "failed_attempts scenario_final = [3]"
    by (simp_all add: finished_def scenario_final_def)
  from main_finished [OF scenario_exec f(1)] f(2) show ?thesis
    by (simp add: summary_def)
qed

theorem exactly_one_outcome_witness:
  "main 3 2 scenario scenario_sched =
     Some (Inr (\<lparr>pages = 3, success_count = 2, failed_count = 1\<rparr>, report [3],
                out scenario_final))
   \<and> exactly_one 1 (out scenario_final) [3]
   \<and> exactly_one 2 (out scenario_final) [3]
   \<and> exactly_one 3 (out scenario_final) [3]"
proof -
  have u: "\<forall>a<max_attempts. uneventful (scenario 1 a)"
    "\<forall>a<max_attempts. uneventful (scenario 2 a)"
    "\<forall>a<max_attempts. uneventful (scenario 3 a)"
    by (simp_all add: scenario_def uneventful_def answers_def responds_def clean_body_def
        standings_def has_results_def get_results_def entry_def player_obj_def)
  from exactly_one_outcome [OF scenario_main _ _ u(1)]
    exactly_one_outcome [OF scenario_main _ _ u(2)]
    exactly_one_outcome [OF scenario_main _ _ u(3)] scenario_main
  show ?thesis by simp
qed

text \<open>A write that raises has the same effect as a subscript that raises: the lines before
  it stay in the file, the last handler retries the page, and in the end the page is in the
  output and in the report.\<close>

lemma torn_write_run:
  "main 1 1 torn_write (replicate 26 0) =
     Some (Inr (\<lparr>pages = 1, success_count = 0, failed_count = 1\<rparr>, report [1],
                replicate 5 (1, JObj [(''Full Name'', JStr ''Ann''),
                                      (''Team Name'', JStr ''Reds''),
                                      (''Player ID'', JNum 11)])))"
  by code_simp

text \<open>
  C1 as stated, for every page, fails in both directions. A page answered with an
  empty result list returns at line 67 having written nothing, and a cancelled task neither
  writes nor appends: such a page is in neither. A page whose result list holds a player
  followed by an entry that lines 55--59 cannot build has the first line written before the
  exception, at each of the five attempts, and is then appended: such a page is in both.
\<close>

lemma half_written_run:
  "main 1 1 half_written (replicate 26 0) =
     Some (Inr (\<lparr>pages = 1, success_count = 0, failed_count = 1\<rparr>, report [1],
                replicate 5 (1, JObj [(''Full Name'', JStr ''Ann''),
                                      (''Team Name'', JStr ''Reds''),
                                      (''Player ID'', JNum 11)])))"
  by code_simp

theorem exactly_one_outcome_counterexample:
  "main 2 1 unwritten unwritten_sched =
     Some (Inr (\<lparr>pages = 2, success_count = 2, failed_count = 0\<rparr>, report [], []))
   \<and> \<not> exactly_one 1 [] []
   \<and> main 1 1 half_written (replicate 26 0) =
       Some (Inr (\<lparr>pages = 1, success_count = 0, failed_count = 1\<rparr>, report [1],
                  replicate 5 (1, JObj [(''Full Name'', JStr ''Ann''),
                                        (''Team Name'', JStr ''Reds''),
                                        (''Player ID'', JNum 11)])))
   \<and> \<not> exactly_one 1
          (replicate 5 (1, JObj [(''Full Name'', JStr ''Ann''), (''Team Name'', JStr ''Reds''),
                                 (''Player ID'', JNum 11)]))
          [1]"
  using unwritten_run half_written_run
  by (simp add: exactly_one_def report_def)

end
